theory Spec2Isabelle
  imports Complex_Main
begin

section \<open>Message model\<close>

text \<open>
  Values carried by tool arguments (decoded JSON) and the Python truth test that
  \<^verbatim>\<open>invoke\<close> applies to the extracted answer. A dictionary is an association list;
  a key is looked up with \<open>map_of\<close>.
\<close>

datatype pyval =
    PNone
  | PBool bool
  | PInt int
  | PFloat rat
  | PStr string
  | PList "pyval list"
  | PDict "(string \<times> pyval) list"

fun truthy :: "pyval \<Rightarrow> bool" where
  "truthy PNone = False"
| "truthy (PBool b) = b"
| "truthy (PInt i) = (i \<noteq> 0)"
| "truthy (PFloat r) = (r \<noteq> 0)"
| "truthy (PStr s) = (s \<noteq> [])"
| "truthy (PList xs) = (xs \<noteq> [])"
| "truthy (PDict kvs) = (kvs \<noteq> [])"

text \<open>Truth test of an optional string (\<open>None\<close> and the empty string are false).\<close>

fun truthy_str :: "string option \<Rightarrow> bool" where
  "truthy_str None = False"
| "truthy_str (Some s) = (s \<noteq> [])"

datatype exn =
    IndexError
  | KeyError string
  | TypeError string
  | UnboundLocalError string
  | ValidationError string
  | ToolError string

text \<open>A complete tool call, as found in the \<open>tool_calls\<close> list of a message.\<close>

record tool_call =
  tc_name :: string
  tc_args :: "(string \<times> pyval) list"
  tc_id :: "string option"

text \<open>A streamed fragment of a tool call (\<open>tool_call_chunks\<close>): the arguments are raw text.\<close>

record tool_call_chunk =
  tcc_name :: "string option"
  tcc_args :: "string option"
  tcc_id :: "string option"
  tcc_index :: nat

text \<open>
  The older shape, found under \<open>additional_kwargs["tool_calls"]\<close>: name and argument
  text sit one level down, under \<open>"function"\<close>.
\<close>

record function_part =
  fn_name :: "string option"
  fn_arguments :: "string option"

record raw_tool_call =
  raw_id :: "string option"
  raw_function :: function_part
  raw_index :: nat

text \<open>One delta of a streamed model turn, with the three attributes the code inspects.\<close>

record ai_message_chunk =
  chunk_content :: string
  tool_call_chunks :: "tool_call_chunk list"
  chunk_tool_calls :: "tool_call list"
  additional_kwargs_tool_calls :: "raw_tool_call list"

text \<open>The message built at the end of \<^verbatim>\<open>stream\<close>, and the result of one tool.\<close>

record ai_message =
  content :: string
  tool_calls :: "tool_call list"
  tool_call_id :: "string option"

record tool_message =
  tm_content :: string
  tm_tool_call_id :: "string option"

datatype msg = AI ai_message | Tool tool_message

datatype history_msg = Human string | Assistant pyval

section \<open>Tool registry and \<^verbatim>\<open>execute_tool\<close>\<close>

datatype tool = Add | Subtract | Multiply | Exponentiate | FinalAnswer | Serpapi

definition name2tool :: "string \<Rightarrow> tool option" where
  "name2tool = map_of
     [(''add'', Add), (''subtract'', Subtract), (''multiply'', Multiply),
      (''exponentiate'', Exponentiate), (''final_answer'', FinalAnswer),
      (''serpapi'', Serpapi)]"

text \<open>
  What surrounds the agent and is not code of the repository: the model provider, the JSON
  decoder and encoder of the message library, the bodies of the arithmetic and search tools
  (floating point, network) with their rendering as text, Python's \<open>str\<close> of a value, and
  the order in which the concurrently running tool tasks of a turn complete.
\<close>

record environment =
  llm :: "string \<Rightarrow> history_msg list \<Rightarrow> msg list \<Rightarrow> ai_message_chunk list"
  parse_json :: "string \<Rightarrow> (string \<times> pyval) list option"
  dumps_members :: "(string \<times> pyval) list \<Rightarrow> string"
  external_tool :: "tool \<Rightarrow> (string \<times> pyval) list \<Rightarrow> exn + string"
  render :: "pyval \<Rightarrow> string"
  completion :: "nat \<Rightarrow> nat list"

text \<open>
  Calling a tool coroutine with \<open>**tool_args\<close>. \<^verbatim>\<open>final_answer(answer, tools_used)\<close> is the
  identity on its two keyword arguments; any other set of keys is a \<open>TypeError\<close>.
\<close>

definition run_tool :: "environment \<Rightarrow> tool \<Rightarrow> (string \<times> pyval) list \<Rightarrow> exn + string" where
  "run_tool env t args =
     (case t of
        FinalAnswer \<Rightarrow>
          (case (map_of args ''answer'', map_of args ''tools_used'') of
             (Some a, Some u) \<Rightarrow>
               if set (map fst args) = {''answer'', ''tools_used''}
               then Inr (render env (PDict [(''answer'', a), (''tools_used'', u)]))
               else Inl (TypeError ''unexpected keyword argument'')
           | _ \<Rightarrow> Inl (TypeError ''missing required argument''))
      | _ \<Rightarrow> external_tool env t args)"

text \<open>
  \<^verbatim>\<open>execute_tool\<close>: the tool is awaited first; the result message is then built, and a
  \<open>ToolMessage\<close> needs a text as its \<open>tool_call_id\<close>, so a call without an id raises there.
\<close>

definition execute_tool :: "environment \<Rightarrow> ai_message \<Rightarrow> exn + tool_message" where
  "execute_tool env tool_call =
     (case tool_calls tool_call of
        [] \<Rightarrow> Inl IndexError
      | tc # _ \<Rightarrow>
          (case name2tool (tc_name tc) of
             None \<Rightarrow> Inl (KeyError (tc_name tc))
           | Some t \<Rightarrow>
               (case run_tool env t (tc_args tc) of
                  Inl e \<Rightarrow> Inl e
                | Inr tool_out \<Rightarrow>
                    (case tc_id tc of
                       None \<Rightarrow> Inl (ValidationError ''tool_call_id'')
                     | Some i \<Rightarrow> Inr \<lparr>tm_content = tool_out, tm_tool_call_id = Some i\<rparr>))))"

text \<open>
  \<^verbatim>\<open>asyncio.gather\<close> without \<open>return_exceptions\<close>: the results come back in the order of
  the awaitables, whatever the order of completion; if some task raises, the first
  exception to occur (in the order of completion) is raised to the caller. \<open>order\<close> lists
  positions in the order of completion (positions it leaves out follow in their own order),
  \<open>raised\<close> the exceptions in that order, \<open>results\<close> the values returned.
\<close>

definition raised :: "nat list \<Rightarrow> (exn + 'a) list \<Rightarrow> exn list" where
  "raised order rs =
     List.map_filter
       (\<lambda>i. if i < length rs then (case rs ! i of Inl e \<Rightarrow> Some e | Inr _ \<Rightarrow> None) else None)
       (order @ [0..<length rs])"

definition results :: "(exn + 'a) list \<Rightarrow> 'a list" where
  "results rs = List.map_filter (\<lambda>r. case r of Inl _ \<Rightarrow> None | Inr v \<Rightarrow> Some v) rs"

definition gather :: "nat list \<Rightarrow> (exn + 'a) list \<Rightarrow> exn + 'a list" where
  "gather order rs = (case raised order rs of e # _ \<Rightarrow> Inl e | [] \<Rightarrow> Inr (results rs))"

section \<open>The streaming handler\<close>

datatype qitem = QChunk ai_message_chunk | QStr string | QNone

record handler =
  queue :: "qitem list"
  final_answer_seen :: bool

definition DONE :: string where
  "DONE = ''<<DONE>>''"

definition STEP_END :: string where
  "STEP_END = ''<<STEP_END>>''"

text \<open>The \<open>tool_name\<close> computed by \<^verbatim>\<open>on_llm_new_token\<close>: first non-empty shape wins.\<close>

definition token_tool_name :: "ai_message_chunk \<Rightarrow> string option" where
  "token_tool_name m =
     (case chunk_tool_calls m of
        tc # _ \<Rightarrow> Some (tc_name tc)
      | [] \<Rightarrow>
          (case tool_call_chunks m of
             c # _ \<Rightarrow> tcc_name c
           | [] \<Rightarrow>
               (case additional_kwargs_tool_calls m of
                  r # _ \<Rightarrow> fn_name (raw_function r)
                | [] \<Rightarrow> None)))"

definition on_llm_new_token :: "handler \<Rightarrow> ai_message_chunk option \<Rightarrow> handler" where
  "on_llm_new_token h chunk =
     (case chunk of
        None \<Rightarrow> h\<lparr>queue := queue h @ [QNone]\<rparr>
      | Some m \<Rightarrow>
          \<lparr>queue = queue h @ [QChunk m],
           final_answer_seen =
             (if token_tool_name m = Some ''final_answer'' then True else final_answer_seen h)\<rparr>)"

definition on_llm_end :: "handler \<Rightarrow> handler" where
  "on_llm_end h =
     (if final_answer_seen h then h\<lparr>queue := queue h @ [QStr DONE]\<rparr>
      else h\<lparr>queue := queue h @ [QStr STEP_END]\<rparr>)"

text \<open>Truth test of a queue item (\<open>if token_or_done:\<close>).\<close>

fun qtruthy :: "qitem \<Rightarrow> bool" where
  "qtruthy (QChunk _) = True"
| "qtruthy (QStr s) = (s \<noteq> [])"
| "qtruthy QNone = False"

text \<open>
  \<^verbatim>\<open>QueueCallbackHandler.__aiter__\<close> over everything that is ever published: the items it
  yields, and whether it returns. On an exhausted queue it keeps polling, so it returns only
  on \<open><<DONE>>\<close>.
\<close>

fun aiter :: "qitem list \<Rightarrow> qitem list \<times> bool" where
  "aiter [] = ([], False)"
| "aiter (x # xs) =
     (if x = QStr DONE then ([], True)
      else (if qtruthy x then x # fst (aiter xs) else fst (aiter xs), snd (aiter xs)))"

section \<open>The stream collector of \<^verbatim>\<open>invoke\<close>\<close>

text \<open>
  \<open>chunk_or_call\<close>: the first entry of \<open>tool_call_chunks\<close> if there are any, else the first
  entry of \<open>tool_calls\<close>, else the first entry of the older shape under
  \<open>additional_kwargs\<close>. \<open>has_id\<close> and \<open>has_name\<close> are what \<open>.get("id")\<close> and \<open>.get("name")\<close>
  find in it; the older shape has no \<open>"name"\<close> key at that level (the handler and the
  consumers read its name as \<open>["function"].get("name")\<close>). Each of the three is a non-empty
  dictionary, so the test \<open>if chunk_or_call\<close> holds whenever there is one.
\<close>

datatype fragment = FChunk tool_call_chunk | FCall tool_call | FRaw raw_tool_call

definition chunk_or_call :: "ai_message_chunk \<Rightarrow> fragment option" where
  "chunk_or_call token =
     (case tool_call_chunks token of
        c # _ \<Rightarrow> Some (FChunk c)
      | [] \<Rightarrow>
          (case chunk_tool_calls token of
             tc # _ \<Rightarrow> Some (FCall tc)
           | [] \<Rightarrow>
               (case additional_kwargs_tool_calls token of
                  r # _ \<Rightarrow> Some (FRaw r)
                | [] \<Rightarrow> None)))"

fun has_id :: "fragment \<Rightarrow> string option" where
  "has_id (FChunk c) = tcc_id c"
| "has_id (FCall tc) = tc_id tc"
| "has_id (FRaw r) = raw_id r"

fun has_name :: "fragment \<Rightarrow> string option" where
  "has_name (FChunk c) = tcc_name c"
| "has_name (FCall tc) = Some (tc_name tc)"
| "has_name (FRaw r) = None"

text \<open>
  Modelled from the spec: the sum of two message chunks (\<open>outputs[-1] += token\<close>) belongs to
  the message library and is not in the repository. Section 4.2: an argument continuation is
  appended to the arguments of the pending tool call. Fragments are matched by their position
  index; the fields of two matched fragments are joined as text, an absent field yielding to
  a present one; an unmatched fragment is added at the end; the complete tool calls of the
  sum are decoded anew from the joined fragments (no arguments decode to the empty
  dictionary, undecodable arguments give no tool call).
\<close>

fun merge_opt :: "string option \<Rightarrow> string option \<Rightarrow> string option" where
  "merge_opt None r = r"
| "merge_opt (Some a) None = Some a"
| "merge_opt (Some a) (Some b) = Some (a @ b)"

fun merge_by_index :: "('a \<Rightarrow> nat) \<Rightarrow> ('a \<Rightarrow> 'a \<Rightarrow> 'a) \<Rightarrow> 'a list \<Rightarrow> 'a \<Rightarrow> 'a list" where
  "merge_by_index ix mrg [] e = [e]"
| "merge_by_index ix mrg (l # ls) e =
     (if ix l = ix e then mrg l e # ls else l # merge_by_index ix mrg ls e)"

definition merge_chunk :: "tool_call_chunk \<Rightarrow> tool_call_chunk \<Rightarrow> tool_call_chunk" where
  "merge_chunk l e =
     \<lparr>tcc_name = merge_opt (tcc_name l) (tcc_name e),
      tcc_args = merge_opt (tcc_args l) (tcc_args e),
      tcc_id = merge_opt (tcc_id l) (tcc_id e),
      tcc_index = tcc_index l\<rparr>"

definition merge_raw :: "raw_tool_call \<Rightarrow> raw_tool_call \<Rightarrow> raw_tool_call" where
  "merge_raw l e =
     \<lparr>raw_id = merge_opt (raw_id l) (raw_id e),
      raw_function =
        \<lparr>fn_name = merge_opt (fn_name (raw_function l)) (fn_name (raw_function e)),
         fn_arguments = merge_opt (fn_arguments (raw_function l)) (fn_arguments (raw_function e))\<rparr>,
      raw_index = raw_index l\<rparr>"

definition init_tool_call :: "(string \<Rightarrow> (string \<times> pyval) list option) \<Rightarrow> tool_call_chunk \<Rightarrow> tool_call option" where
  "init_tool_call parse c =
     (case (if truthy_str (tcc_args c) then parse (the (tcc_args c)) else Some []) of
        None \<Rightarrow> None
      | Some d \<Rightarrow>
          Some \<lparr>tc_name = (case tcc_name c of None \<Rightarrow> [] | Some n \<Rightarrow> n),
                tc_args = d, tc_id = tcc_id c\<rparr>)"

definition chunk_add ::
  "(string \<Rightarrow> (string \<times> pyval) list option) \<Rightarrow> ai_message_chunk \<Rightarrow> ai_message_chunk \<Rightarrow> ai_message_chunk" where
  "chunk_add parse a b =
     \<lparr>chunk_content = chunk_content a @ chunk_content b,
      tool_call_chunks =
        foldl (merge_by_index tcc_index merge_chunk) (tool_call_chunks a) (tool_call_chunks b),
      chunk_tool_calls =
        List.map_filter (init_tool_call parse)
          (foldl (merge_by_index tcc_index merge_chunk) (tool_call_chunks a) (tool_call_chunks b)),
      additional_kwargs_tool_calls =
        foldl (merge_by_index raw_index merge_raw)
          (additional_kwargs_tool_calls a) (additional_kwargs_tool_calls b)\<rparr>"

text \<open>The body of the \<open>async for token\<close> loop of \<^verbatim>\<open>stream\<close>, on the list \<open>outputs\<close>.\<close>

definition stream_step ::
  "(string \<Rightarrow> (string \<times> pyval) list option) \<Rightarrow> ai_message_chunk list \<Rightarrow> ai_message_chunk \<Rightarrow> ai_message_chunk list" where
  "stream_step parse outputs token =
     (case chunk_or_call token of
        None \<Rightarrow> outputs
      | Some f \<Rightarrow>
          if truthy_str (has_id f) \<or> truthy_str (has_name f) then outputs @ [token]
          else if outputs \<noteq> [] then butlast outputs @ [chunk_add parse (last outputs) token]
          else outputs)"

definition collect ::
  "(string \<Rightarrow> (string \<times> pyval) list option) \<Rightarrow> ai_message_chunk list \<Rightarrow> ai_message_chunk list" where
  "collect parse tokens = foldl (stream_step parse) [] tokens"

text \<open>
  The list comprehension that ends \<^verbatim>\<open>stream\<close>: outputs without tool calls are dropped.
  \<open>turn_calls\<close> is what \<^verbatim>\<open>stream\<close> returns when the provider delivers the deltas \<open>tokens\<close>.
\<close>

definition to_message :: "ai_message_chunk \<Rightarrow> ai_message option" where
  "to_message x =
     (case chunk_tool_calls x of
        [] \<Rightarrow> None
      | tc # _ \<Rightarrow>
          Some \<lparr>content = chunk_content x, tool_calls = chunk_tool_calls x, tool_call_id = tc_id tc\<rparr>)"

definition turn_calls :: "environment \<Rightarrow> ai_message_chunk list \<Rightarrow> ai_message list" where
  "turn_calls env tokens = List.map_filter to_message (collect (parse_json env) tokens)"

text \<open>
  The callbacks of one model call: the handler is told of every delta, then of the end of
  the turn.
\<close>

definition publish_turn :: "handler \<Rightarrow> ai_message_chunk list \<Rightarrow> handler" where
  "publish_turn h tokens = on_llm_end (foldl on_llm_new_token h (map Some tokens))"

section \<open>The agent loop\<close>

text \<open>
  The local variables of \<^verbatim>\<open>invoke\<close>, with the handler it publishes to. \<open>turns\<close> is not a
  variable of the source: it records the deltas of every model call made so far, so that
  statements can speak of turns.
\<close>

record locals =
  count :: nat
  final_answer :: "pyval option"
  final_answer_call :: "tool_call option"
  agent_scratchpad :: "msg list"
  found_final_answer :: bool
  streamer :: handler
  turns :: "ai_message_chunk list list"

definition id2tool_obs :: "ai_message list \<Rightarrow> tool_message list \<Rightarrow> (string option \<Rightarrow> tool_message option)" where
  "id2tool_obs calls tool_obs =
     foldl (\<lambda>m (c, ob). m(tool_call_id c \<mapsto> ob)) Map.empty (zip calls tool_obs)"

fun extend_scratchpad ::
  "(string option \<Rightarrow> tool_message option) \<Rightarrow> msg list \<Rightarrow> ai_message list \<Rightarrow> exn + msg list" where
  "extend_scratchpad m sp [] = Inr sp"
| "extend_scratchpad m sp (c # cs) =
     (case m (tool_call_id c) of
        None \<Rightarrow> Inl (KeyError ''tool_call_id'')
      | Some ob \<Rightarrow> extend_scratchpad m (sp @ [AI c, Tool ob]) cs)"

text \<open>The scan for the terminating tool: the first message whose first tool call has the name.\<close>

fun find_final_answer :: "ai_message list \<Rightarrow> exn + (tool_call \<times> pyval) option" where
  "find_final_answer [] = Inr None"
| "find_final_answer (c # cs) =
     (case tool_calls c of
        [] \<Rightarrow> Inl IndexError
      | tc # _ \<Rightarrow>
          if tc_name tc = ''final_answer''
          then (case map_of (tc_args tc) ''answer'' of
                  None \<Rightarrow> Inl (KeyError ''answer'')
                | Some a \<Rightarrow> Inr (Some (tc, a)))
          else find_final_answer cs)"

text \<open>One pass through the body of the \<open>while\<close> loop; \<open>Some e\<close> when it raises \<open>e\<close>.\<close>

definition iteration ::
  "environment \<Rightarrow> string \<Rightarrow> history_msg list \<Rightarrow> locals \<Rightarrow> exn option \<times> locals" where
  "iteration env input hist s =
     (let tokens = llm env input hist (agent_scratchpad s);
          calls = turn_calls env tokens;
          s1 = s\<lparr>streamer := publish_turn (streamer s) tokens, turns := turns s @ [tokens]\<rparr>
      in case gather (completion env (count s)) (map (execute_tool env) calls) of
           Inl e \<Rightarrow> (Some e, s1)
         | Inr tool_obs \<Rightarrow>
             (case extend_scratchpad (id2tool_obs calls tool_obs) (agent_scratchpad s1) calls of
                Inl e \<Rightarrow> (Some e, s1)
              | Inr sp \<Rightarrow>
                  (let s2 = s1\<lparr>agent_scratchpad := sp, count := count s + 1, found_final_answer := False\<rparr>
                   in case find_final_answer calls of
                        Inl e \<Rightarrow> (Some e, s2)
                      | Inr None \<Rightarrow> (None, s2)
                      | Inr (Some (tc, a)) \<Rightarrow>
                          (None, s2\<lparr>final_answer_call := Some tc, final_answer := Some a,
                                   found_final_answer := True\<rparr>))))"

lemma iteration_count:
  "iteration env input hist s = (None, s') \<Longrightarrow> count s' = Suc (count s)"
  by (auto simp: iteration_def Let_def split: sum.splits option.splits prod.splits)

function invoke_loop ::
  "environment \<Rightarrow> int \<Rightarrow> string \<Rightarrow> history_msg list \<Rightarrow> locals \<Rightarrow> exn option \<times> locals" where
  "invoke_loop env max_iterations input hist s =
     (if int (count s) < max_iterations then
        (case iteration env input hist s of
           (Some e, s') \<Rightarrow> (Some e, s')
         | (None, s') \<Rightarrow>
             if found_final_answer s' then (None, s')
             else invoke_loop env max_iterations input hist s')
      else (None, s))"
  by pat_completeness auto
termination
  apply (relation "measure (\<lambda>(env, n, input, hist, s). nat (n - int (count s)))")
   apply simp
  apply (auto dest!: iteration_count [OF sym])
  done

declare invoke_loop.simps [simp del]

text \<open>
  What \<^verbatim>\<open>invoke\<close> hands back: the \<open>final_answer_call\<close> dictionary, or the fallback
  dictionary.
\<close>

datatype invoke_return = ReturnCall tool_call | ReturnDict "(string \<times> pyval) list"

definition no_answer :: "(string \<times> pyval) list" where
  "no_answer = [(''answer'', PStr ''No answer found''), (''tools_used'', PList [])]"

record invocation =
  outcome :: "exn + invoke_return"
  chat_history :: "history_msg list"
  final :: locals

definition initial :: "handler \<Rightarrow> locals" where
  "initial h =
     \<lparr>count = 0, final_answer = None, final_answer_call = None, agent_scratchpad = [],
      found_final_answer = False, streamer = h, turns = []\<rparr>"

definition answered :: "locals \<Rightarrow> bool" where
  "answered s = (case final_answer s of None \<Rightarrow> False | Some a \<Rightarrow> truthy a)"

text \<open>
  The content of a message is a text, or a list of texts and dictionaries; building
  \<open>AIMessage(content=final_answer)\<close> from any other value raises.
\<close>

definition valid_content :: "pyval \<Rightarrow> bool" where
  "valid_content a =
     (case a of
        PStr _ \<Rightarrow> True
      | PList xs \<Rightarrow> list_all (\<lambda>x. case x of PStr _ \<Rightarrow> True | PDict _ \<Rightarrow> True | _ \<Rightarrow> False) xs
      | _ \<Rightarrow> False)"

definition invoke ::
  "environment \<Rightarrow> int \<Rightarrow> history_msg list \<Rightarrow> string \<Rightarrow> handler \<Rightarrow> invocation" where
  "invoke env max_iterations hist input h =
     (case invoke_loop env max_iterations input hist (initial h) of
        (Some e, s) \<Rightarrow> \<lparr>outcome = Inl e, chat_history = hist, final = s\<rparr>
      | (None, s) \<Rightarrow>
          if answered s \<and> \<not> valid_content (the (final_answer s))
          then \<lparr>outcome = Inl (ValidationError ''content''), chat_history = hist, final = s\<rparr>
          else
          \<lparr>outcome =
             (if answered s
              then (case final_answer_call s of
                      None \<Rightarrow> Inl (UnboundLocalError ''final_answer_call'')
                    | Some c \<Rightarrow> Inr (ReturnCall c))
              else Inr (ReturnDict no_answer)),
           chat_history =
             hist @ [Human input,
                     Assistant (if answered s then the (final_answer s) else PStr ''No answer found'')],
           final = s\<rparr>)"

definition fresh :: handler where
  "fresh = \<lparr>queue = [], final_answer_seen = False\<rparr>"

section \<open>The stream consumers\<close>

text \<open>
  \<^verbatim>\<open>json.dumps\<close> of a non-empty dictionary: an opening brace, the members, a closing brace.
\<close>

definition json_dumps :: "environment \<Rightarrow> (string \<times> pyval) list \<Rightarrow> string" where
  "json_dumps env a = ''{'' @ dumps_members env a @ ''}''"

text \<open>The markup \<open><step><step_name>NAME</step_name>\<close>.\<close>

definition step_header :: "string \<Rightarrow> string" where
  "step_header name = ''<step><step_name>'' @ name @ ''</step_name>''"

text \<open>
  \<open>tool_name\<close> and \<open>tool_args\<close> as \<^verbatim>\<open>stream_generator\<close> (app.py) works them out for a delta:
  from the first complete tool call, then from the first streamed fragment, and from the
  older shape only when both are still false.
\<close>

definition name_and_args :: "environment \<Rightarrow> ai_message_chunk \<Rightarrow> string option \<times> string option" where
  "name_and_args env msg =
     (let (tool_name, tool_args) =
            (case chunk_tool_calls msg of
               [] \<Rightarrow> (None, None)
             | tc # _ \<Rightarrow>
                 (Some (tc_name tc),
                  if tc_args tc \<noteq> [] then Some (json_dumps env (tc_args tc)) else None));
          (tool_name, tool_args) =
            (case tool_call_chunks msg of
               [] \<Rightarrow> (tool_name, tool_args)
             | c # _ \<Rightarrow>
                 (if truthy_str (tcc_name c) then tcc_name c else tool_name,
                  if truthy_str (tcc_args c) then tcc_args c else tool_args))
      in if \<not> truthy_str tool_name \<and> \<not> truthy_str tool_args
         then (case additional_kwargs_tool_calls msg of
                 [] \<Rightarrow> (tool_name, tool_args)
               | r # _ \<Rightarrow> (fn_name (raw_function r), fn_arguments (raw_function r)))
         else (tool_name, tool_args))"

text \<open>\<open>if x: yield x\<close>.\<close>

fun yield :: "string option \<Rightarrow> string list" where
  "yield None = []"
| "yield (Some s) = (if s = [] then [] else [s])"

text \<open>
  \<^verbatim>\<open>stream_generator\<close> of app.py over all that the invocation publishes: the loop leaves at
  \<open><<DONE>>\<close>, or when the queue is empty and the task is done (the end of the list).
\<close>

fun stream_generator :: "environment \<Rightarrow> bool \<Rightarrow> bool \<Rightarrow> qitem list \<Rightarrow> string list" where
  "stream_generator env final_answer_started final_answer_complete [] = []"
| "stream_generator env final_answer_started final_answer_complete (token # rest) =
     (if token = QStr DONE then []
      else if token = QStr STEP_END then
        (if \<not> final_answer_complete
         then ''</step>''
                # stream_generator env final_answer_started
                    (if final_answer_started then True else final_answer_complete) rest
         else stream_generator env final_answer_started final_answer_complete rest)
      else if final_answer_complete
        then stream_generator env final_answer_started final_answer_complete rest
      else (case token of
              QChunk msg \<Rightarrow>
                (case name_and_args env msg of
                   (tool_name, tool_args) \<Rightarrow>
                     yield (map_option step_header (if truthy_str tool_name then tool_name else None))
                       @ yield tool_args
                       @ stream_generator env
                           (final_answer_started \<or> tool_name = Some ''final_answer'')
                           final_answer_complete rest)
            | _ \<Rightarrow> stream_generator env final_answer_started final_answer_complete rest))"



section \<open>Example runs\<close>

text \<open>
  Concrete surroundings for evaluating the model: a provider that answers from the
  scratchpad alone, an addition that renders \<open>5\<close>, a web search that fails.
\<close>

definition call_token :: "tool_call \<Rightarrow> ai_message_chunk" where
  "call_token tc =
     \<lparr>chunk_content = [], tool_call_chunks = [], chunk_tool_calls = [tc],
      additional_kwargs_tool_calls = []\<rparr>"

definition add_call :: tool_call where
  "add_call =
     \<lparr>tc_name = ''add'', tc_args = [(''x'', PInt 2), (''y'', PInt 3)], tc_id = Some ''call_1''\<rparr>"

definition answer_call :: tool_call where
  "answer_call =
     \<lparr>tc_name = ''final_answer'',
      tc_args = [(''answer'', PStr ''5''), (''tools_used'', PList [PStr ''add''])],
      tc_id = Some ''call_2''\<rparr>"

definition search_call :: tool_call where
  "search_call =
     \<lparr>tc_name = ''serpapi'', tc_args = [(''query'', PStr ''weather'')], tc_id = Some ''call_3''\<rparr>"

definition empty_answer_call :: tool_call where
  "empty_answer_call =
     \<lparr>tc_name = ''final_answer'',
      tc_args = [(''answer'', PStr []), (''tools_used'', PList [])],
      tc_id = Some ''call_4''\<rparr>"

text \<open>
  The argument text \<open>{"x": 2, "y": 3}\<close> in two pieces, the text around the answer in
  \<open>{"answer": "<<DONE>>", "tools_used": []}\<close>, and a decoder that knows these texts and the
  empty dictionary.
\<close>

definition add_text_1 :: string where
  "add_text_1 = ''{'' @ [CHR 0x22] @ ''x'' @ [CHR 0x22] @ '': 2, ''"

definition add_text_2 :: string where
  "add_text_2 = [CHR 0x22] @ ''y'' @ [CHR 0x22] @ '': 3}''"

definition marker_text_1 :: string where
  "marker_text_1 = ''{'' @ [CHR 0x22] @ ''answer'' @ [CHR 0x22] @ '': '' @ [CHR 0x22]"

definition marker_text_3 :: string where
  "marker_text_3 = [CHR 0x22] @ '', '' @ [CHR 0x22] @ ''tools_used'' @ [CHR 0x22] @ '': []}''"

definition decode :: "string \<Rightarrow> (string \<times> pyval) list option" where
  "decode s =
     (if s = add_text_1 @ add_text_2 then Some [(''x'', PInt 2), (''y'', PInt 3)]
      else if s = marker_text_1 @ ''<<DONE>>'' @ marker_text_3
        then Some [(''answer'', PStr ''<<DONE>>''), (''tools_used'', PList [])]
      else if s = ''{}'' then Some []
      else None)"

definition world :: "(msg list \<Rightarrow> ai_message_chunk list) \<Rightarrow> environment" where
  "world model =
     \<lparr>llm = (\<lambda>input hist scratchpad. model scratchpad),
      parse_json = decode,
      dumps_members = (\<lambda>_. []),
      external_tool =
        (\<lambda>t args.
           case t of
             Serpapi \<Rightarrow> Inl (ToolError ''network'')
           | FinalAnswer \<Rightarrow> Inr []
           | _ \<Rightarrow>
               if set (map fst args) = {''x'', ''y''}
               then (case t of Add \<Rightarrow> Inr ''5'' | _ \<Rightarrow> Inr ''0'')
               else Inl (TypeError ''arguments'')),
      render = (\<lambda>_. ''{}''),
      completion = (\<lambda>_. [])\<rparr>"

text \<open>An addition, then the final answer (scenario A of the spec).\<close>

definition add_then_answer :: "msg list \<Rightarrow> ai_message_chunk list" where
  "add_then_answer scratchpad =
     (if scratchpad = [] then [call_token add_call] else [call_token answer_call])"

text \<open>The model never selects the terminating tool (scenario B).\<close>

definition always_add :: "msg list \<Rightarrow> ai_message_chunk list" where
  "always_add scratchpad = [call_token add_call]"

text \<open>A failing search with a sibling addition in the same turn (scenario C).\<close>

definition search_and_add :: "msg list \<Rightarrow> ai_message_chunk list" where
  "search_and_add scratchpad = [call_token search_call, call_token add_call]"

text \<open>A failing search alone, and a final answer beside a failing search.\<close>

definition always_search :: "msg list \<Rightarrow> ai_message_chunk list" where
  "always_search scratchpad = [call_token search_call]"

definition answer_and_search :: "msg list \<Rightarrow> ai_message_chunk list" where
  "answer_and_search scratchpad = [call_token answer_call, call_token search_call]"

text \<open>A final answer that is the number five, and a final answer whose text is empty.\<close>

definition numeric_answer :: "msg list \<Rightarrow> ai_message_chunk list" where
  "numeric_answer scratchpad =
     [call_token \<lparr>tc_name = ''final_answer'',
                   tc_args = [(''answer'', PInt 5), (''tools_used'', PList [])],
                   tc_id = Some ''call_6''\<rparr>]"


definition empty_answer :: "msg list \<Rightarrow> ai_message_chunk list" where
  "empty_answer scratchpad = [call_token empty_answer_call]"

text \<open>
  Deltas of a streamed tool call: the delta that starts the call at position \<open>k\<close> with id
  \<open>i\<close> and name \<open>n\<close>, a delta that carries only a piece of argument text for the call at
  position \<open>k\<close>, and the single delta that carries id, name and the whole argument text.
\<close>

definition arg_delta :: "nat \<Rightarrow> string \<Rightarrow> ai_message_chunk" where
  "arg_delta k a =
     \<lparr>chunk_content = [],
      tool_call_chunks = [\<lparr>tcc_name = None, tcc_args = Some a, tcc_id = None, tcc_index = k\<rparr>],
      chunk_tool_calls = [],
      additional_kwargs_tool_calls = []\<rparr>"

definition start_delta :: "nat \<Rightarrow> string \<Rightarrow> string \<Rightarrow> ai_message_chunk" where
  "start_delta k i n =
     \<lparr>chunk_content = [],
      tool_call_chunks = [\<lparr>tcc_name = Some n, tcc_args = None, tcc_id = Some i, tcc_index = k\<rparr>],
      chunk_tool_calls = [\<lparr>tc_name = n, tc_args = [], tc_id = Some i\<rparr>],
      additional_kwargs_tool_calls = []\<rparr>"

definition whole_delta ::
  "(string \<Rightarrow> (string \<times> pyval) list option) \<Rightarrow> nat \<Rightarrow> string \<Rightarrow> string \<Rightarrow> string \<Rightarrow> ai_message_chunk" where
  "whole_delta parse k i n a =
     \<lparr>chunk_content = [],
      tool_call_chunks = [\<lparr>tcc_name = Some n, tcc_args = Some a, tcc_id = Some i, tcc_index = k\<rparr>],
      chunk_tool_calls =
        List.map_filter (init_tool_call parse)
          [\<lparr>tcc_name = Some n, tcc_args = Some a, tcc_id = Some i, tcc_index = k\<rparr>],
      additional_kwargs_tool_calls = []\<rparr>"


definition streamed_add :: "msg list \<Rightarrow> ai_message_chunk list" where
  "streamed_add scratchpad =
     (if scratchpad = []
      then [start_delta 0 ''call_1'' ''add'', arg_delta 0 add_text_1, arg_delta 0 add_text_2]
      else [call_token answer_call])"

section \<open>Vocabulary for statements about turns\<close>

text \<open>
  A turn is written as the list of deltas of its model call. \<open>completes\<close>: every tool
  invocation of the turn returns. \<open>quiet\<close>: moreover the turn does not select the
  terminating tool.
\<close>

definition completes :: "environment \<Rightarrow> ai_message_chunk list \<Rightarrow> bool" where
  "completes env tokens = list_all (\<lambda>c. \<not> isl (execute_tool env c)) (turn_calls env tokens)"

definition quiet :: "environment \<Rightarrow> ai_message_chunk list \<Rightarrow> bool" where
  "quiet env tokens =
     (completes env tokens \<and> find_final_answer (turn_calls env tokens) = Inr None)"

text \<open>What a completed turn appends to the scratchpad.\<close>

definition appended :: "environment \<Rightarrow> ai_message list \<Rightarrow> msg list" where
  "appended env calls =
     concat (map (\<lambda>c. [AI c,
                        Tool (the (id2tool_obs calls (results (map (execute_tool env) calls))
                                     (tool_call_id c)))]) calls)"

text \<open>What a completed turn, given by its deltas, appends to the scratchpad.\<close>

definition pad :: "environment \<Rightarrow> ai_message_chunk list \<Rightarrow> msg list" where
  "pad env t = appended env (turn_calls env t)"

text \<open>
  How a run of the loop from a state \<open>s\<close> that added the turns \<open>new\<close> ended in \<open>s'\<close>: by
  raising \<open>ex\<close> in its last turn; by running out of budget after quiet turns; or at a turn
  that selected the terminating tool.
\<close>

definition ended :: "environment \<Rightarrow> int \<Rightarrow> locals \<Rightarrow> ai_message_chunk list list \<Rightarrow> exn option \<Rightarrow> locals \<Rightarrow> bool" where
  "ended env n s new e s' =
     (case e of
        Some ex \<Rightarrow>
          new \<noteq> [] \<and> \<not> completes env (last new) \<and> list_all (quiet env) (butlast new)
          \<and> count s' + 1 = count s + length new
          \<and> (\<exists>c\<in>set (turn_calls env (last new)). execute_tool env c = Inl ex)
      | None \<Rightarrow>
          count s' = count s + length new \<and>
          ((list_all (quiet env) new \<and> n \<le> int (count s')
            \<and> final_answer s' = final_answer s \<and> final_answer_call s' = final_answer_call s
            \<and> (new = [] \<or> \<not> found_final_answer s'))
           \<or> (new \<noteq> [] \<and> completes env (last new) \<and> list_all (quiet env) (butlast new)
               \<and> found_final_answer s'
               \<and> (\<exists>tc a. find_final_answer (turn_calls env (last new)) = Inr (Some (tc, a))
                     \<and> final_answer s' = Some a \<and> final_answer_call s' = Some tc))))"

text \<open>
  The collected message that selects the terminating tool: the first one whose first tool
  call is named \<open>final_answer\<close>.
\<close>

definition selected :: "ai_message list \<Rightarrow> ai_message option" where
  "selected calls =
     List.find (\<lambda>c. case tool_calls c of [] \<Rightarrow> False | tc # _ \<Rightarrow> tc_name tc = ''final_answer'')
       calls"

text \<open>A message cut down to its first tool call.\<close>

definition first_only :: "ai_message \<Rightarrow> ai_message" where
  "first_only c = c\<lparr>tool_calls := take 1 (tool_calls c)\<rparr>"

text \<open>
  \<open>saw_final\<close> holds of a turn when one of its deltas had \<open>final_answer\<close> as the name the
  handler reads; \<open>published\<close> lists what the handler publishes for a sequence of turns, given
  the value of its flag \<open>final_answer_seen\<close> before them.
\<close>

definition saw_final :: "ai_message_chunk list \<Rightarrow> bool" where
  "saw_final t = list_ex (\<lambda>tok. token_tool_name tok = Some ''final_answer'') t"

fun published :: "bool \<Rightarrow> ai_message_chunk list list \<Rightarrow> qitem list" where
  "published seen [] = []"
| "published seen (t # ts) =
     map QChunk t @ [QStr (if seen \<or> saw_final t then DONE else STEP_END)]
       @ published (seen \<or> saw_final t) ts"




section \<open>Facts about dispatch\<close>

lemma set_map_filter: "set (List.map_filter f xs) = {y. \<exists>x\<in>set xs. f x = Some y}"
  by (induction xs) (auto split: option.splits)

lemma set_raised: "set (raised order rs) = {e. Inl e \<in> set rs}"
proof -
  let ?f = "\<lambda>i. if i < length rs then (case rs ! i of Inl e \<Rightarrow> Some e | Inr _ \<Rightarrow> None) else None"
  have *: "?f i = Some e \<longleftrightarrow> i < length rs \<and> rs ! i = Inl e" for i e
    by (cases "rs ! i") auto
  have "set (raised order rs) = {e. \<exists>i\<in>set (order @ [0..<length rs]). ?f i = Some e}"
    unfolding raised_def set_map_filter by blast
  also have "\<dots> = {e. \<exists>i<length rs. rs ! i = Inl e}"
    unfolding * by auto
  also have "\<dots> = {e. Inl e \<in> set rs}"
    by (auto simp: in_set_conv_nth)
  finally show ?thesis .
qed

lemma results_Inr: "results (map Inr vs) = vs"
  unfolding results_def by (induction vs) simp_all

lemma results_all_Inr: "\<forall>r\<in>set rs. \<exists>v. r = Inr v \<Longrightarrow> map Inr (results rs) = rs"
  unfolding results_def by (induction rs) auto

lemma gather_all_ok: "gather order (map Inr vs) = Inr vs"
proof -
  have "set (raised order (map Inr vs :: (exn + 'a) list)) = {}"
    unfolding set_raised by auto
  then have "raised order (map Inr vs :: (exn + 'a) list) = []"
    by simp
  then show ?thesis
    unfolding gather_def by (simp add: results_Inr)
qed

lemma gather_Inr_D:
  assumes "gather order rs = Inr vs"
  shows "rs = map Inr vs"
proof (cases "raised order rs")
  case Nil
  then have "set (raised order rs) = {}" by simp
  then have "\<forall>r\<in>set rs. \<exists>v. r = Inr v"
    unfolding set_raised by (metis (mono_tags, lifting) empty_iff mem_Collect_eq sum.exhaust)
  then have "map Inr (results rs) = rs"
    by (rule results_all_Inr)
  moreover from assms Nil have "vs = results rs"
    unfolding gather_def by simp
  ultimately show ?thesis by simp
next
  case (Cons e es)
  with assms show ?thesis
    unfolding gather_def by simp
qed

lemma gather_Inl_D:
  assumes "gather order rs = Inl e"
  shows "Inl e \<in> set rs"
proof (cases "raised order rs")
  case Nil
  with assms show ?thesis
    unfolding gather_def by simp
next
  case (Cons e' es)
  with assms have "e' = e"
    unfolding gather_def by simp
  with Cons have "e \<in> set (raised order rs)" by simp
  then show ?thesis
    unfolding set_raised by simp
qed

lemma gather_some_Inl:
  assumes "Inl e \<in> set rs"
  shows "\<exists>e'. gather order rs = Inl e'"
proof (cases "raised order rs")
  case Nil
  then have "set (raised order rs) = {}" by simp
  with assms show ?thesis
    unfolding set_raised by blast
next
  case (Cons e' es)
  then show ?thesis
    unfolding gather_def by simp
qed

lemma id2tool_obs_fold:
  "foldl (\<lambda>m (c, ob). m(tool_call_id c \<mapsto> ob)) m0 xs
     = m0 ++ map_of (rev (map (\<lambda>(c, ob). (tool_call_id c, ob)) xs))"
proof (induction xs arbitrary: m0)
  case Nil
  show ?case by simp
next
  case (Cons x xs)
  obtain c ob where x: "x = (c, ob)" by (cases x)
  have *: "m0(tool_call_id c \<mapsto> ob) ++ M = m0 ++ (Map.empty(tool_call_id c \<mapsto> ob) ++ M)" for M
    by (simp add: map_add_assoc [symmetric])
  have "foldl (\<lambda>m (c, ob). m(tool_call_id c \<mapsto> ob)) m0 (x # xs)
          = foldl (\<lambda>m (c, ob). m(tool_call_id c \<mapsto> ob)) (m0(tool_call_id c \<mapsto> ob)) xs"
    unfolding x by simp
  also have "\<dots> = m0(tool_call_id c \<mapsto> ob) ++ map_of (rev (map (\<lambda>(c, ob). (tool_call_id c, ob)) xs))"
    by (rule Cons.IH)
  also have "\<dots> = m0 ++ map_of (rev (map (\<lambda>(c, ob). (tool_call_id c, ob)) (x # xs)))"
    unfolding * x by simp
  finally show ?case .
qed

lemma id2tool_obs_map_of:
  "id2tool_obs calls obs = map_of (rev (map (\<lambda>(c, ob). (tool_call_id c, ob)) (zip calls obs)))"
  unfolding id2tool_obs_def id2tool_obs_fold by simp

lemma id2tool_obs_defined:
  assumes "length obs = length calls" and "c \<in> set calls"
  shows "id2tool_obs calls obs (tool_call_id c) \<noteq> None"
proof -
  from assms obtain ob where "(c, ob) \<in> set (zip calls obs)"
    by (metis in_set_impl_in_set_zip1)
  then have "(tool_call_id c, ob) \<in> set (rev (map (\<lambda>(c, ob). (tool_call_id c, ob)) (zip calls obs)))"
    by force
  then have "tool_call_id c \<in> fst ` set (rev (map (\<lambda>(c, ob). (tool_call_id c, ob)) (zip calls obs)))"
    by force
  then show ?thesis
    unfolding id2tool_obs_map_of by (simp only: map_of_eq_None_iff not_not)
qed

lemma id2tool_obs_distinct:
  assumes "length obs = length calls" and "distinct (map tool_call_id calls)" and "i < length calls"
  shows "id2tool_obs calls obs (tool_call_id (calls ! i)) = Some (obs ! i)"
proof -
  let ?l = "map (\<lambda>(c, ob). (tool_call_id c, ob)) (zip calls obs)"
  have fst: "map fst ?l = map tool_call_id calls"
    using assms(1) by (induction calls obs rule: list_induct2') auto
  then have d: "distinct (map fst (rev ?l))"
    using assms(2) by (simp add: rev_map [symmetric])
  have "(calls ! i, obs ! i) \<in> set (zip calls obs)"
    using assms(1,3) by (metis in_set_zip fst_conv snd_conv)
  then have "(tool_call_id (calls ! i), obs ! i) \<in> set (rev ?l)"
    by force
  with d show ?thesis
    unfolding id2tool_obs_map_of by (simp only: map_of_eq_Some_iff)
qed

lemma extend_scratchpad_ok:
  "(\<And>c. c \<in> set cs \<Longrightarrow> m (tool_call_id c) \<noteq> None) \<Longrightarrow>
   extend_scratchpad m sp cs = Inr (sp @ concat (map (\<lambda>c. [AI c, Tool (the (m (tool_call_id c)))]) cs))"
proof (induction cs arbitrary: sp)
  case Nil
  show ?case by simp
next
  case (Cons c cs)
  from Cons.prems [of c] obtain ob where ob: "m (tool_call_id c) = Some ob" by auto
  have "extend_scratchpad m (sp @ [AI c, Tool ob]) cs
          = Inr ((sp @ [AI c, Tool ob]) @ concat (map (\<lambda>c. [AI c, Tool (the (m (tool_call_id c)))]) cs))"
    by (rule Cons.IH) (simp add: Cons.prems)
  then show ?case
    by (simp add: ob)
qed

lemma to_message_Some:
  assumes "to_message x = Some c"
  shows "tool_calls c \<noteq> []" and "tool_call_id c = tc_id (hd (tool_calls c))"
proof -
  from assms obtain tc rest where "chunk_tool_calls x = tc # rest"
    and "c = \<lparr>content = chunk_content x, tool_calls = chunk_tool_calls x, tool_call_id = tc_id tc\<rparr>"
    unfolding to_message_def by (cases "chunk_tool_calls x") auto
  then show "tool_calls c \<noteq> []" and "tool_call_id c = tc_id (hd (tool_calls c))"
    by simp_all
qed

lemma turn_calls_nonempty: "c \<in> set (turn_calls env tokens) \<Longrightarrow> tool_calls c \<noteq> []"
  unfolding turn_calls_def set_map_filter using to_message_Some(1) by blast

lemma turn_calls_id:
  "c \<in> set (turn_calls env tokens) \<Longrightarrow> tool_call_id c = tc_id (hd (tool_calls c))"
  unfolding turn_calls_def set_map_filter using to_message_Some(2) by blast

lemma execute_final_answer:
  assumes "execute_tool env c = Inr ob" and "tool_calls c = tc # rest" and "tc_name tc = ''final_answer''"
  shows "\<exists>a. map_of (tc_args tc) ''answer'' = Some a"
  using assms unfolding execute_tool_def run_tool_def name2tool_def
  by (auto split: option.splits sum.splits if_splits)

lemma find_final_answer_ok:
  "(\<And>c. c \<in> set cs \<Longrightarrow> tool_calls c \<noteq> [] \<and> \<not> isl (execute_tool env c)) \<Longrightarrow>
   \<exists>r. find_final_answer cs = Inr r"
proof (induction cs)
  case Nil
  show ?case by simp
next
  case (Cons c cs)
  from Cons.prems [of c] obtain tc rest ob where c: "tool_calls c = tc # rest" "execute_tool env c = Inr ob"
    by (cases "tool_calls c"; cases "execute_tool env c") auto
  show ?case
  proof (cases "tc_name tc = ''final_answer''")
    case True
    with c execute_final_answer [of env c ob tc rest] show ?thesis by auto
  next
    case False
    with c Cons show ?thesis by auto
  qed
qed

lemma completes_iff:
  "completes env t \<longleftrightarrow> (\<forall>c\<in>set (turn_calls env t). \<exists>ob. execute_tool env c = Inr ob)"
proof -
  have "\<not> isl x \<longleftrightarrow> (\<exists>ob. x = Inr ob)" for x :: "exn + tool_message"
    by (cases x) auto
  then show ?thesis
    unfolding completes_def list_all_iff by simp
qed

lemma iteration_raises:
  assumes "\<not> completes env (llm env input hist (agent_scratchpad s))"
  shows "\<exists>e. iteration env input hist s
              = (Some e, s\<lparr>streamer := publish_turn (streamer s) (llm env input hist (agent_scratchpad s)),
                          turns := turns s @ [llm env input hist (agent_scratchpad s)]\<rparr>)
            \<and> (\<exists>c\<in>set (turn_calls env (llm env input hist (agent_scratchpad s))). execute_tool env c = Inl e)"
proof -
  let ?t = "llm env input hist (agent_scratchpad s)"
  let ?rs = "map (execute_tool env) (turn_calls env ?t)"
  from assms obtain c where "c \<in> set (turn_calls env ?t)" and "\<not> (\<exists>ob. execute_tool env c = Inr ob)"
    unfolding completes_iff by blast
  then obtain e0 where "Inl e0 \<in> set ?rs"
    by (cases "execute_tool env c") force+
  then obtain e where e: "gather (completion env (count s)) ?rs = Inl e"
    using gather_some_Inl by blast
  then have "Inl e \<in> set ?rs"
    by (rule gather_Inl_D)
  then have "\<exists>c\<in>set (turn_calls env ?t). execute_tool env c = Inl e"
    by auto
  moreover have "iteration env input hist s
     = (Some e, s\<lparr>streamer := publish_turn (streamer s) ?t, turns := turns s @ [?t]\<rparr>)"
    unfolding iteration_def Let_def e by simp
  ultimately show ?thesis by blast
qed

lemma iteration_completes:
  assumes "completes env (llm env input hist (agent_scratchpad s))"
  shows "iteration env input hist s =
     (case find_final_answer (turn_calls env (llm env input hist (agent_scratchpad s))) of
        Inl e \<Rightarrow>
          (Some e, s\<lparr>streamer := publish_turn (streamer s) (llm env input hist (agent_scratchpad s)),
                    turns := turns s @ [llm env input hist (agent_scratchpad s)],
                    agent_scratchpad := agent_scratchpad s
                       @ appended env (turn_calls env (llm env input hist (agent_scratchpad s))),
                    count := Suc (count s), found_final_answer := False\<rparr>)
      | Inr None \<Rightarrow>
          (None, s\<lparr>streamer := publish_turn (streamer s) (llm env input hist (agent_scratchpad s)),
                  turns := turns s @ [llm env input hist (agent_scratchpad s)],
                  agent_scratchpad := agent_scratchpad s
                     @ appended env (turn_calls env (llm env input hist (agent_scratchpad s))),
                  count := Suc (count s), found_final_answer := False\<rparr>)
      | Inr (Some (tc, a)) \<Rightarrow>
          (None, s\<lparr>streamer := publish_turn (streamer s) (llm env input hist (agent_scratchpad s)),
                  turns := turns s @ [llm env input hist (agent_scratchpad s)],
                  agent_scratchpad := agent_scratchpad s
                     @ appended env (turn_calls env (llm env input hist (agent_scratchpad s))),
                  count := Suc (count s), found_final_answer := True,
                  final_answer_call := Some tc, final_answer := Some a\<rparr>))"
proof -
  let ?t = "llm env input hist (agent_scratchpad s)"
  let ?calls = "turn_calls env ?t"
  let ?rs = "map (execute_tool env) ?calls"
  from assms have "\<forall>r\<in>set ?rs. \<exists>v. r = Inr v"
    unfolding completes_iff by auto
  then have rs: "map Inr (results ?rs) = ?rs"
    by (rule results_all_Inr)
  have g: "gather (completion env (count s)) ?rs = Inr (results ?rs)"
    using gather_all_ok [of "completion env (count s)" "results ?rs"] unfolding rs .
  have len: "length (results ?rs) = length ?calls"
    using arg_cong [OF rs, of length] by simp
  have x: "extend_scratchpad (id2tool_obs ?calls (results ?rs)) (agent_scratchpad s) ?calls
             = Inr (agent_scratchpad s @ appended env ?calls)"
    unfolding appended_def
    by (rule extend_scratchpad_ok) (rule id2tool_obs_defined [OF len])
  show ?thesis
    unfolding iteration_def Let_def g
    by (simp add: x split: sum.splits option.splits)
qed

lemma completes_find:
  assumes "completes env t"
  shows "\<exists>r. find_final_answer (turn_calls env t) = Inr r"
proof (rule find_final_answer_ok)
  fix c assume "c \<in> set (turn_calls env t)"
  with assms show "tool_calls c \<noteq> [] \<and> \<not> isl (execute_tool env c)"
    using turn_calls_nonempty [of c env t] unfolding completes_def list_all_iff by simp
qed

text \<open>The three ways a turn can go.\<close>

lemma turn_cases:
  obtains (raises) "\<not> completes env t"
  | (quiet) "quiet env t"
  | (final) tc a where "completes env t" and "find_final_answer (turn_calls env t) = Inr (Some (tc, a))"
proof (cases "completes env t")
  case False
  then show ?thesis by (rule raises)
next
  case True
  then obtain r where r: "find_final_answer (turn_calls env t) = Inr r"
    using completes_find by blast
  show ?thesis
  proof (cases r)
    case None
    with True r show ?thesis by (intro quiet) (simp add: quiet_def)
  next
    case (Some p)
    then obtain tc a where "r = Some (tc, a)" by (cases p) simp
    with True r show ?thesis by (intro final) simp_all
  qed
qed

text \<open>
  The shape of every run of the loop: the turns it adds, what the handler was told, what the
  scratchpad holds, and how it ended.
\<close>

lemma loop_run:
  "invoke_loop env n input hist s = (e, s') \<Longrightarrow>
   \<exists>new. turns s' = turns s @ new
        \<and> streamer s' = foldl publish_turn (streamer s) new
        \<and> int (length new) \<le> max 0 (n - int (count s))
        \<and> agent_scratchpad s'
            = agent_scratchpad s @ concat (map (pad env) (take (count s' - count s) new))
        \<and> ended env n s new e s'"
proof (induction env n input hist s arbitrary: e s' rule: invoke_loop.induct)
  case (1 env n input hist s)
  let ?t = "llm env input hist (agent_scratchpad s)"
  show ?case
  proof (cases "int (count s) < n")
    case False
    with "1.prems" have "e = None" "s' = s"
      by (simp_all add: invoke_loop.simps [of env n input hist s])
    with False show ?thesis
      by (intro exI [of _ "[]"]) (simp add: ended_def)
  next
    case True
    show ?thesis
    proof (cases rule: turn_cases [of env ?t])
      case raises
      then obtain ex where it: "iteration env input hist s
          = (Some ex, s\<lparr>streamer := publish_turn (streamer s) ?t, turns := turns s @ [?t]\<rparr>)"
        and ex: "\<exists>c\<in>set (turn_calls env ?t). execute_tool env c = Inl ex"
        using iteration_raises [of env input hist s] by blast
      from "1.prems" True it have "e = Some ex"
        and "s' = s\<lparr>streamer := publish_turn (streamer s) ?t, turns := turns s @ [?t]\<rparr>"
        by (simp_all add: invoke_loop.simps [of env n input hist s])
      with True raises ex show ?thesis
        by (intro exI [of _ "[?t]"]) (simp add: ended_def pad_def)
    next
      case (final tc a)
      then have it: "iteration env input hist s
          = (None, s\<lparr>streamer := publish_turn (streamer s) ?t, turns := turns s @ [?t],
                    agent_scratchpad := agent_scratchpad s @ appended env (turn_calls env ?t),
                    count := Suc (count s), found_final_answer := True,
                    final_answer_call := Some tc, final_answer := Some a\<rparr>)"
        using iteration_completes [of env input hist s] by simp
      from "1.prems" True it have "e = None"
        and "s' = s\<lparr>streamer := publish_turn (streamer s) ?t, turns := turns s @ [?t],
                    agent_scratchpad := agent_scratchpad s @ appended env (turn_calls env ?t),
                    count := Suc (count s), found_final_answer := True,
                    final_answer_call := Some tc, final_answer := Some a\<rparr>"
        by (simp_all add: invoke_loop.simps [of env n input hist s])
      with True final show ?thesis
        by (intro exI [of _ "[?t]"]) (simp add: ended_def pad_def)
    next
      case quiet
      define s2 where "s2 = s\<lparr>streamer := publish_turn (streamer s) ?t, turns := turns s @ [?t],
                    agent_scratchpad := agent_scratchpad s @ appended env (turn_calls env ?t),
                    count := Suc (count s), found_final_answer := False\<rparr>"
      from quiet have it: "iteration env input hist s = (None, s2)"
        using iteration_completes [of env input hist s] unfolding quiet_def s2_def by simp
      have nf: "\<not> found_final_answer s2" by (simp add: s2_def)
      from "1.prems" True it nf have run: "invoke_loop env n input hist s2 = (e, s')"
        by (simp add: invoke_loop.simps [of env n input hist s])
      from "1.IH" [OF True it [symmetric] refl nf run]
      obtain new where new: "turns s' = turns s2 @ new"
        "streamer s' = foldl publish_turn (streamer s2) new"
        "int (length new) \<le> max 0 (n - int (count s2))"
        "agent_scratchpad s' = agent_scratchpad s2 @ concat (map (pad env) (take (count s' - count s2) new))"
        "ended env n s2 new e s'"
        by blast
      have a: "turns s' = turns s @ (?t # new)"
        using new(1) by (simp add: s2_def)
      have b: "streamer s' = foldl publish_turn (streamer s) (?t # new)"
        using new(2) by (simp add: s2_def)
      have c: "int (length (?t # new)) \<le> max 0 (n - int (count s))"
        using new(3) True by (simp add: s2_def)
      have d: "ended env n s (?t # new) e s'"
      proof (cases e)
        case (Some ex)
        with new(5) quiet show ?thesis
          by (auto simp: ended_def s2_def)
      next
        case None
        from new(5) None have cnt: "count s' = count s2 + length new"
          by (simp add: ended_def)
        from new(5) None consider
          (budget) "list_all (quiet env) new" "n \<le> int (count s')"
            "final_answer s' = final_answer s2" "final_answer_call s' = final_answer_call s2"
            "new = [] \<or> \<not> found_final_answer s'"
          | (fin) "new \<noteq> []" "completes env (last new)" "list_all (quiet env) (butlast new)"
            "found_final_answer s'"
            "\<exists>tc a. find_final_answer (turn_calls env (last new)) = Inr (Some (tc, a))
                     \<and> final_answer s' = Some a \<and> final_answer_call s' = Some tc"
          by (auto simp: ended_def)
        then show ?thesis
        proof cases
          case budget
          have "\<not> found_final_answer s'"
          proof (cases "new = []")
            case True
            from True cnt \<open>n \<le> int (count s')\<close> have "\<not> int (count s2) < n"
              by simp
            then have "invoke_loop env n input hist s2 = (None, s2)"
              by (subst invoke_loop.simps) simp
            with run have "s' = s2" by simp
            with nf show ?thesis by simp
          next
            case False
            with budget(5) show ?thesis by simp
          qed
          with budget cnt None quiet show ?thesis
            by (simp add: ended_def s2_def)
        next
          case fin
          with cnt None quiet show ?thesis
            by (simp add: ended_def s2_def)
        qed
      qed
      from new(5) have "count s2 \<le> count s'"
        by (cases e; cases new) (auto simp: ended_def)
      then have "count s' - count s = Suc (count s' - count s2)"
        by (simp add: s2_def)
      then have p: "agent_scratchpad s'
            = agent_scratchpad s @ concat (map (pad env) (take (count s' - count s) (?t # new)))"
        using new(4) by (simp add: s2_def pad_def)
      from a b c d p show ?thesis by blast
    qed
  qed
qed

lemma invoke_run:
  obtains e s' where "invoke_loop env n input hist (initial h) = (e, s')"
    and "final (invoke env n hist input h) = s'"
    and "outcome (invoke env n hist input h) =
           (case e of
              Some ex \<Rightarrow> Inl ex
            | None \<Rightarrow>
                if answered s' \<and> \<not> valid_content (the (final_answer s'))
                then Inl (ValidationError ''content'')
                else if answered s'
                then (case final_answer_call s' of
                        None \<Rightarrow> Inl (UnboundLocalError ''final_answer_call'')
                      | Some c \<Rightarrow> Inr (ReturnCall c))
                else Inr (ReturnDict no_answer))"
    and "chat_history (invoke env n hist input h) =
           (case e of
              Some ex \<Rightarrow> hist
            | None \<Rightarrow>
                if answered s' \<and> \<not> valid_content (the (final_answer s')) then hist
                else hist @ [Human input,
                  Assistant (if answered s' then the (final_answer s') else PStr ''No answer found'')])"
    and "int (length (turns s')) \<le> max 0 n"
    and "streamer s' = foldl publish_turn h (turns s')"
    and "agent_scratchpad s' = concat (map (pad env) (take (count s') (turns s')))"
    and "ended env n (initial h) (turns s') e s'"
proof -
  obtain e s' where run: "invoke_loop env n input hist (initial h) = (e, s')"
    by (cases "invoke_loop env n input hist (initial h)")
  from loop_run [OF run] obtain new where new: "turns s' = turns (initial h) @ new"
    "streamer s' = foldl publish_turn (streamer (initial h)) new"
    "int (length new) \<le> max 0 (n - int (count (initial h)))"
    "agent_scratchpad s' = agent_scratchpad (initial h) @ concat (map (pad env) (take (count s' - count (initial h)) new))"
    "ended env n (initial h) new e s'"
    by blast
  from new(1) have t: "new = turns s'" by (simp add: initial_def)
  show thesis
  proof (rule that [OF run])
    show "final (invoke env n hist input h) = s'"
      unfolding invoke_def run by (cases e) simp_all
    show "outcome (invoke env n hist input h) =
           (case e of
              Some ex \<Rightarrow> Inl ex
            | None \<Rightarrow>
                if answered s' \<and> \<not> valid_content (the (final_answer s'))
                then Inl (ValidationError ''content'')
                else if answered s'
                then (case final_answer_call s' of
                        None \<Rightarrow> Inl (UnboundLocalError ''final_answer_call'')
                      | Some c \<Rightarrow> Inr (ReturnCall c))
                else Inr (ReturnDict no_answer))"
      unfolding invoke_def run by (cases e) simp_all
    show "chat_history (invoke env n hist input h) =
           (case e of
              Some ex \<Rightarrow> hist
            | None \<Rightarrow>
                if answered s' \<and> \<not> valid_content (the (final_answer s')) then hist
                else hist @ [Human input,
                  Assistant (if answered s' then the (final_answer s') else PStr ''No answer found'')])"
      unfolding invoke_def run by (cases e) simp_all
    show "int (length (turns s')) \<le> max 0 n"
      using new(3) unfolding t by (simp add: initial_def)
    show "streamer s' = foldl publish_turn h (turns s')"
      using new(2) unfolding t by (simp add: initial_def)
    show "agent_scratchpad s' = concat (map (pad env) (take (count s') (turns s')))"
      using new(4) unfolding t by (simp add: initial_def)
    show "ended env n (initial h) (turns s') e s'"
      using new(5) unfolding t .
  qed
qed

section \<open>The iteration budget\<close>

text \<open>
  Claim C3. For every invocation and every value of \<open>max_iterations\<close>, \<^verbatim>\<open>invoke\<close> makes at
  most \<open>max_iterations\<close> model calls (none when the budget is zero or negative), each followed
  by at most one dispatch batch, and \<open>count\<close>, the number of completed cycles, never exceeds
  the number of model calls. The loop is a total function (its termination is proved with
  the measure \<open>max_iterations - count\<close>), so every invocation ends, whether or not a turn
  ever selects \<open>final_answer\<close>.
\<close>

theorem invoke_bounded:
  "length (turns (final (invoke env max_iterations hist input h))) \<le> nat max_iterations
   \<and> count (final (invoke env max_iterations hist input h))
       \<le> length (turns (final (invoke env max_iterations hist input h)))"
proof -
  obtain e s' where s': "final (invoke env max_iterations hist input h) = s'"
    and len: "int (length (turns s')) \<le> max 0 max_iterations"
    and en: "ended env max_iterations (initial h) (turns s') e s'"
    by (rule invoke_run)
  from len have "length (turns s') \<le> nat max_iterations" by simp
  moreover from en have "count s' \<le> length (turns s')"
    by (cases e) (auto simp: ended_def initial_def)
  ultimately show ?thesis
    unfolding s' by simp
qed

section \<open>Budget exhaustion\<close>

lemma quiet_last:
  assumes "list_all (quiet env) new" and "new \<noteq> []"
  shows "quiet env (last new)"
  using assms by (simp add: list_all_iff)

text \<open>
  Claim C2, as amended. If every tool invocation of every turn returns and no turn has a
  collected message whose first tool call is named \<open>final_answer\<close>, then \<^verbatim>\<open>invoke\<close> runs
  exactly \<open>max_iterations\<close> cycles (none for a budget below one) and returns exactly the
  dictionary \<open>{"answer": "No answer found", "tools_used": []}\<close>.
\<close>

theorem fallback_when_no_final_answer:
  assumes "list_all (quiet env) (turns (final (invoke env max_iterations hist input h)))"
  shows "outcome (invoke env max_iterations hist input h) = Inr (ReturnDict no_answer)
         \<and> length (turns (final (invoke env max_iterations hist input h))) = nat max_iterations"
proof -
  obtain e s' where s': "final (invoke env max_iterations hist input h) = s'"
    and out: "outcome (invoke env max_iterations hist input h) =
           (case e of
              Some ex \<Rightarrow> Inl ex
            | None \<Rightarrow>
                if answered s' \<and> \<not> valid_content (the (final_answer s'))
                then Inl (ValidationError ''content'')
                else if answered s'
                then (case final_answer_call s' of
                        None \<Rightarrow> Inl (UnboundLocalError ''final_answer_call'')
                      | Some c \<Rightarrow> Inr (ReturnCall c))
                else Inr (ReturnDict no_answer))"
    and len: "int (length (turns s')) \<le> max 0 max_iterations"
    and en: "ended env max_iterations (initial h) (turns s') e s'"
    by (rule invoke_run)
  from assms have q: "list_all (quiet env) (turns s')"
    unfolding s' .
  have ql: "quiet env (last (turns s'))" if "turns s' \<noteq> []"
    using q that by (rule quiet_last)
  show ?thesis
  proof (cases e)
    case (Some ex)
    with en have "turns s' \<noteq> []" "\<not> completes env (last (turns s'))"
      by (simp_all add: ended_def)
    with ql show ?thesis by (simp add: quiet_def)
  next
    case None
    from en None ql have "final_answer s' = None" and "max_iterations \<le> int (count s')"
      and "count s' = length (turns s')"
      by (auto simp: ended_def initial_def quiet_def)
    with len out None show ?thesis
      unfolding s' by (simp add: answered_def)
  qed
qed

theorem fallback_when_no_final_answer_witness:
  "list_all (quiet (world always_add))
     (turns (final (invoke (world always_add) 3 [] ''What is 2+3?'' fresh)))
   \<and> outcome (invoke (world always_add) 3 [] ''What is 2+3?'' fresh) = Inr (ReturnDict no_answer)
   \<and> length (turns (final (invoke (world always_add) 3 [] ''What is 2+3?'' fresh))) = nat 3"
proof -
  have h: "list_all (quiet (world always_add))
     (turns (final (invoke (world always_add) 3 [] ''What is 2+3?'' fresh)))"
    by code_simp
  from fallback_when_no_final_answer [OF h] h show ?thesis by simp
qed

text \<open>
  Claim C2 as stated fails: no turn selects \<open>final_answer\<close>, yet \<^verbatim>\<open>invoke\<close> does not return the
  fallback dictionary. The web search raises, \<^verbatim>\<open>execute_tool\<close> and \<^verbatim>\<open>asyncio.gather\<close> let the
  exception through, and \<^verbatim>\<open>invoke\<close> raises it.
\<close>

theorem tool_failure_instead_of_fallback:
  "list_all (\<lambda>t. find_final_answer (turn_calls (world always_search) t) = Inr None)
     (turns (final (invoke (world always_search) 3 [] ''What is the weather?'' fresh)))
   \<and> outcome (invoke (world always_search) 3 [] ''What is the weather?'' fresh)
       = Inl (ToolError ''network'')"
  by code_simp

section \<open>The terminating tool\<close>

lemma find_final_answer_Some:
  "find_final_answer cs = Inr (Some (tc, a)) \<Longrightarrow>
   tc_name tc = ''final_answer'' \<and> map_of (tc_args tc) ''answer'' = Some a
   \<and> (\<exists>c\<in>set cs. tool_calls c \<noteq> [] \<and> hd (tool_calls c) = tc)"
  by (induction cs) (auto split: list.splits if_splits option.splits)

lemma nth_butlast_mem:
  assumes "i < length xs" and "Suc i \<noteq> length xs"
  shows "xs ! i \<in> set (butlast xs)"
proof -
  from assms have "i < length (butlast xs)" by simp
  then have "butlast xs ! i \<in> set (butlast xs)" by (rule nth_mem)
  with \<open>i < length (butlast xs)\<close> show ?thesis by (simp add: nth_butlast)
qed

lemma nth_last: "Suc i = length xs \<Longrightarrow> xs ! i = last xs"
  by (cases xs rule: rev_cases) (simp_all add: nth_append)

lemma find_selected:
  assumes "\<And>c. c \<in> set cs \<Longrightarrow> tool_calls c \<noteq> []"
    and "selected cs = Some c" and "tool_calls c = tc # rest"
    and "map_of (tc_args tc) ''answer'' = Some a"
  shows "find_final_answer cs = Inr (Some (tc, a))"
  using assms
proof (induction cs)
  case Nil
  then show ?case by (simp add: selected_def)
next
  case (Cons x xs)
  from Cons.prems(1) [of x] obtain t ts where x: "tool_calls x = t # ts"
    by (cases "tool_calls x") auto
  show ?case
  proof (cases "tc_name t = ''final_answer''")
    case True
    with Cons.prems x have "x = c" by (simp add: selected_def)
    with Cons.prems x True show ?thesis by simp
  next
    case False
    with Cons.prems x have "selected xs = Some c" by (simp add: selected_def)
    with Cons False x show ?thesis by (simp add: selected_def)
  qed
qed

text \<open>
  Claim C1, as amended. If in some turn of an invocation every tool invocation returns and a
  collected message has \<open>final_answer\<close> as the name of its first tool call, with an \<open>answer\<close>
  argument that is a non-empty text, then that turn is the last one (no further model call
  or dispatch, whatever budget remains) and \<^verbatim>\<open>invoke\<close> returns that tool call, whose
  \<open>answer\<close> argument is the answer. The first such message of the turn is meant.
\<close>

theorem final_answer_ends_loop:
  assumes "i < length (turns (final (invoke env max_iterations hist input h)))"
    and "completes env (turns (final (invoke env max_iterations hist input h)) ! i)"
    and "selected (turn_calls env (turns (final (invoke env max_iterations hist input h)) ! i))
           = Some c"
    and "tool_calls c = tc # rest"
    and "map_of (tc_args tc) ''answer'' = Some (PStr answer)"
    and "answer \<noteq> []"
  shows "length (turns (final (invoke env max_iterations hist input h))) = Suc i
         \<and> count (final (invoke env max_iterations hist input h)) = Suc i
         \<and> outcome (invoke env max_iterations hist input h) = Inr (ReturnCall tc)
         \<and> tc_name tc = ''final_answer''
         \<and> chat_history (invoke env max_iterations hist input h)
             = hist @ [Human input, Assistant (PStr answer)]"
proof -
  obtain e s' where s': "final (invoke env max_iterations hist input h) = s'"
    and out: "outcome (invoke env max_iterations hist input h) =
           (case e of
              Some ex \<Rightarrow> Inl ex
            | None \<Rightarrow>
                if answered s' \<and> \<not> valid_content (the (final_answer s'))
                then Inl (ValidationError ''content'')
                else if answered s'
                then (case final_answer_call s' of
                        None \<Rightarrow> Inl (UnboundLocalError ''final_answer_call'')
                      | Some c \<Rightarrow> Inr (ReturnCall c))
                else Inr (ReturnDict no_answer))"
    and ch: "chat_history (invoke env max_iterations hist input h) =
           (case e of
              Some ex \<Rightarrow> hist
            | None \<Rightarrow>
                if answered s' \<and> \<not> valid_content (the (final_answer s')) then hist
                else hist @ [Human input,
                  Assistant (if answered s' then the (final_answer s') else PStr ''No answer found'')])"
    and en: "ended env max_iterations (initial h) (turns s') e s'"
    by (rule invoke_run)
  let ?ts = "turns s'"
  from assms have i: "i < length ?ts" and c: "completes env (?ts ! i)"
    and sel: "selected (turn_calls env (?ts ! i)) = Some c"
    unfolding s' by simp_all
  have f: "find_final_answer (turn_calls env (?ts ! i)) = Inr (Some (tc, PStr answer))"
    using turn_calls_nonempty sel assms(4,5) by (rule find_selected)
  from f have nq: "\<not> quiet env (?ts ! i)" by (simp add: quiet_def)
  have last: "Suc i = length ?ts" if "list_all (quiet env) (butlast ?ts)"
  proof (rule ccontr)
    assume "Suc i \<noteq> length ?ts"
    with i have "?ts ! i \<in> set (butlast ?ts)" by (rule nth_butlast_mem)
    with that nq show False by (simp add: list_all_iff)
  qed
  show ?thesis
  proof (cases e)
    case (Some ex)
    with en have "list_all (quiet env) (butlast ?ts)" and "\<not> completes env (last ?ts)"
      by (simp_all add: ended_def)
    with last c show ?thesis by (simp add: nth_last)
  next
    case None
    from en None consider
      (budget) "list_all (quiet env) ?ts"
      | (fin) "list_all (quiet env) (butlast ?ts)" "count s' = length ?ts"
        "\<exists>tc a. find_final_answer (turn_calls env (last ?ts)) = Inr (Some (tc, a))
                     \<and> final_answer s' = Some a \<and> final_answer_call s' = Some tc"
      by (auto simp: ended_def initial_def)
    then show ?thesis
    proof cases
      case budget
      with i nq show ?thesis by (simp add: list_all_iff)
    next
      case fin
      from fin(1) have l: "Suc i = length ?ts" by (rule last)
      then have "?ts ! i = last ?ts" by (rule nth_last)
      with fin(3) f have fa: "final_answer s' = Some (PStr answer)" "final_answer_call s' = Some tc"
        by simp_all
      with \<open>answer \<noteq> []\<close> have a: "answered s'" "valid_content (the (final_answer s'))"
        by (simp_all add: answered_def valid_content_def)
      from out None a fa have "outcome (invoke env max_iterations hist input h) = Inr (ReturnCall tc)"
        by simp
      moreover from ch None a fa have "chat_history (invoke env max_iterations hist input h)
             = hist @ [Human input, Assistant (PStr answer)]"
        by simp
      ultimately show ?thesis
        using l fin(2) find_final_answer_Some [OF f] unfolding s' by simp
    qed
  qed
qed

theorem final_answer_ends_loop_witness:
  "1 < length (turns (final (invoke (world add_then_answer) 3 [] ''What is 2+3?'' fresh)))
   \<and> completes (world add_then_answer)
        (turns (final (invoke (world add_then_answer) 3 [] ''What is 2+3?'' fresh)) ! 1)
   \<and> selected (turn_calls (world add_then_answer)
        (turns (final (invoke (world add_then_answer) 3 [] ''What is 2+3?'' fresh)) ! 1))
       = Some \<lparr>content = [], tool_calls = [answer_call], tool_call_id = Some ''call_2''\<rparr>
   \<and> map_of (tc_args answer_call) ''answer'' = Some (PStr ''5'')
   \<and> length (turns (final (invoke (world add_then_answer) 3 [] ''What is 2+3?'' fresh))) = Suc 1
   \<and> count (final (invoke (world add_then_answer) 3 [] ''What is 2+3?'' fresh)) = Suc 1
   \<and> outcome (invoke (world add_then_answer) 3 [] ''What is 2+3?'' fresh) = Inr (ReturnCall answer_call)
   \<and> tc_name answer_call = ''final_answer''
   \<and> chat_history (invoke (world add_then_answer) 3 [] ''What is 2+3?'' fresh)
       = [] @ [Human ''What is 2+3?'', Assistant (PStr ''5'')]"
proof -
  have h1: "1 < length (turns (final (invoke (world add_then_answer) 3 [] ''What is 2+3?'' fresh)))"
    by code_simp
  have h2: "completes (world add_then_answer)
        (turns (final (invoke (world add_then_answer) 3 [] ''What is 2+3?'' fresh)) ! 1)"
    by code_simp
  have h3: "selected (turn_calls (world add_then_answer)
        (turns (final (invoke (world add_then_answer) 3 [] ''What is 2+3?'' fresh)) ! 1))
       = Some \<lparr>content = [], tool_calls = [answer_call], tool_call_id = Some ''call_2''\<rparr>"
    by code_simp
  have h4: "tool_calls \<lparr>content = [], tool_calls = [answer_call], tool_call_id = Some ''call_2''\<rparr>
              = answer_call # []"
    by simp
  have h5: "map_of (tc_args answer_call) ''answer'' = Some (PStr ''5'')"
    by (simp add: answer_call_def)
  have h6: "''5'' \<noteq> []" by simp
  from final_answer_ends_loop [OF h1 h2 h3 h4 h5 h6] h1 h2 h3 h5 show ?thesis by simp
qed

text \<open>
  Claim C1 as stated fails: the turn's collected tool calls contain \<open>final_answer\<close> with the
  answer \<open>5\<close>, a sibling call of the same turn raises, and \<^verbatim>\<open>invoke\<close> raises instead of
  returning the answer.
\<close>

theorem failing_sibling_hides_final_answer:
  "find_final_answer (turn_calls (world answer_and_search)
      (turns (final (invoke (world answer_and_search) 3 [] ''What is 2+3?'' fresh)) ! 0))
     = Inr (Some (answer_call, PStr ''5''))
   \<and> outcome (invoke (world answer_and_search) 3 [] ''What is 2+3?'' fresh)
       = Inl (ToolError ''network'')"
  by code_simp

text \<open>
  An answer that Python counts as false (here the empty text) ends the loop at its turn, but
  the truth test \<open>if final_answer\<close> of the \<open>return\<close> statement then selects the fallback
  dictionary.
\<close>

lemma empty_answer_falls_back:
  "find_final_answer (turn_calls (world empty_answer)
      (turns (final (invoke (world empty_answer) 3 [] ''Say nothing'' fresh)) ! 0))
     = Inr (Some (empty_answer_call, PStr []))
   \<and> count (final (invoke (world empty_answer) 3 [] ''Say nothing'' fresh)) = 1
   \<and> outcome (invoke (world empty_answer) 3 [] ''Say nothing'' fresh) = Inr (ReturnDict no_answer)"
  by code_simp

text \<open>
  An answer that is not a text: the loop ends at its turn, and building the assistant
  message for the chat history raises.
\<close>

lemma numeric_answer_raises:
  "count (final (invoke (world numeric_answer) 3 [] ''What is 2+3?'' fresh)) = 1
   \<and> outcome (invoke (world numeric_answer) 3 [] ''What is 2+3?'' fresh)
       = Inl (ValidationError ''content'')
   \<and> chat_history (invoke (world numeric_answer) 3 [] ''What is 2+3?'' fresh) = []"
  by code_simp

section \<open>A failing tool\<close>

text \<open>
  Claim C4, as amended. If some tool invocation of a turn raises, the error leaves
  \<^verbatim>\<open>execute_tool\<close> and \<^verbatim>\<open>asyncio.gather\<close> and \<^verbatim>\<open>invoke\<close> raises it (one of the errors raised in
  that turn): the turn is the last one, no result message of the turn reaches the scratchpad
  (it holds the pairs of the earlier turns only), the counter is not advanced and the chat
  history is left as it was.
\<close>

theorem tool_failure_aborts:
  assumes "i < length (turns (final (invoke env max_iterations hist input h)))"
    and "\<not> completes env (turns (final (invoke env max_iterations hist input h)) ! i)"
  shows "length (turns (final (invoke env max_iterations hist input h))) = Suc i
         \<and> count (final (invoke env max_iterations hist input h)) = i
         \<and> (\<exists>e. outcome (invoke env max_iterations hist input h) = Inl e
                \<and> (\<exists>c\<in>set (turn_calls env (turns (final (invoke env max_iterations hist input h)) ! i)).
                      execute_tool env c = Inl e))
         \<and> agent_scratchpad (final (invoke env max_iterations hist input h))
             = concat (map (pad env) (take i (turns (final (invoke env max_iterations hist input h)))))
         \<and> chat_history (invoke env max_iterations hist input h) = hist"
proof -
  obtain e s' where s': "final (invoke env max_iterations hist input h) = s'"
    and out: "outcome (invoke env max_iterations hist input h) =
           (case e of
              Some ex \<Rightarrow> Inl ex
            | None \<Rightarrow>
                if answered s' \<and> \<not> valid_content (the (final_answer s'))
                then Inl (ValidationError ''content'')
                else if answered s'
                then (case final_answer_call s' of
                        None \<Rightarrow> Inl (UnboundLocalError ''final_answer_call'')
                      | Some c \<Rightarrow> Inr (ReturnCall c))
                else Inr (ReturnDict no_answer))"
    and ch: "chat_history (invoke env max_iterations hist input h) =
           (case e of
              Some ex \<Rightarrow> hist
            | None \<Rightarrow>
                if answered s' \<and> \<not> valid_content (the (final_answer s')) then hist
                else hist @ [Human input,
                  Assistant (if answered s' then the (final_answer s') else PStr ''No answer found'')])"
    and pad: "agent_scratchpad s' = concat (map (pad env) (take (count s') (turns s')))"
    and en: "ended env max_iterations (initial h) (turns s') e s'"
    by (rule invoke_run)
  let ?ts = "turns s'"
  from assms have i: "i < length ?ts" and c: "\<not> completes env (?ts ! i)"
    unfolding s' by simp_all
  from c have nq: "\<not> quiet env (?ts ! i)" by (simp add: quiet_def)
  have last: "Suc i = length ?ts" if "list_all (quiet env) (butlast ?ts)"
  proof (rule ccontr)
    assume "Suc i \<noteq> length ?ts"
    with i have "?ts ! i \<in> set (butlast ?ts)" by (rule nth_butlast_mem)
    with that nq show False by (simp add: list_all_iff)
  qed
  show ?thesis
  proof (cases e)
    case (Some ex)
    with en have q: "list_all (quiet env) (butlast ?ts)"
      and cnt: "count s' + 1 = length ?ts"
      and ex: "\<exists>c\<in>set (turn_calls env (last ?ts)). execute_tool env c = Inl ex"
      by (simp_all add: ended_def initial_def)
    from q have l: "Suc i = length ?ts" by (rule last)
    then have "?ts ! i = last ?ts" by (rule nth_last)
    moreover from cnt l have "count s' = i" by simp
    ultimately show ?thesis
      using ex out ch pad l Some unfolding s' by simp
  next
    case None
    from en None consider
      (budget) "list_all (quiet env) ?ts"
      | (fin) "list_all (quiet env) (butlast ?ts)" "completes env (last ?ts)"
      by (auto simp: ended_def initial_def)
    then show ?thesis
    proof cases
      case budget
      with i nq show ?thesis by (simp add: list_all_iff)
    next
      case fin
      from fin(1) have "Suc i = length ?ts" by (rule last)
      then have "?ts ! i = last ?ts" by (rule nth_last)
      with fin(2) c show ?thesis by simp
    qed
  qed
qed

theorem tool_failure_aborts_witness:
  "0 < length (turns (final (invoke (world search_and_add) 3 [] ''What is the weather?'' fresh)))
   \<and> \<not> completes (world search_and_add)
         (turns (final (invoke (world search_and_add) 3 [] ''What is the weather?'' fresh)) ! 0)
   \<and> length (turns (final (invoke (world search_and_add) 3 [] ''What is the weather?'' fresh))) = Suc 0
   \<and> count (final (invoke (world search_and_add) 3 [] ''What is the weather?'' fresh)) = 0
   \<and> (\<exists>e. outcome (invoke (world search_and_add) 3 [] ''What is the weather?'' fresh) = Inl e
          \<and> (\<exists>c\<in>set (turn_calls (world search_and_add)
                 (turns (final (invoke (world search_and_add) 3 [] ''What is the weather?'' fresh)) ! 0)).
                execute_tool (world search_and_add) c = Inl e))
   \<and> agent_scratchpad (final (invoke (world search_and_add) 3 [] ''What is the weather?'' fresh))
       = concat (map (pad (world search_and_add))
           (take 0 (turns (final (invoke (world search_and_add) 3 [] ''What is the weather?'' fresh)))))
   \<and> chat_history (invoke (world search_and_add) 3 [] ''What is the weather?'' fresh) = []"
proof -
  have h1: "0 < length (turns (final (invoke (world search_and_add) 3 [] ''What is the weather?'' fresh)))"
    by code_simp
  have h2: "\<not> completes (world search_and_add)
         (turns (final (invoke (world search_and_add) 3 [] ''What is the weather?'' fresh)) ! 0)"
    by code_simp
  from tool_failure_aborts [OF h1 h2] h1 h2 show ?thesis by simp
qed

text \<open>
  Claim C4 as stated fails: the search of the turn raises and its sibling addition returns
  \<open>5\<close>, but no message is appended to the scratchpad, no second iteration runs although the
  budget is three, and the invocation ends with the error of the search.
\<close>

theorem failing_tool_aborts_invocation:
  "turn_calls (world search_and_add)
      (turns (final (invoke (world search_and_add) 3 [] ''What is the weather?'' fresh)) ! 0)
     = [\<lparr>content = [], tool_calls = [search_call], tool_call_id = Some ''call_3''\<rparr>,
        \<lparr>content = [], tool_calls = [add_call], tool_call_id = Some ''call_1''\<rparr>]
   \<and> execute_tool (world search_and_add)
        \<lparr>content = [], tool_calls = [search_call], tool_call_id = Some ''call_3''\<rparr>
       = Inl (ToolError ''network'')
   \<and> execute_tool (world search_and_add)
        \<lparr>content = [], tool_calls = [add_call], tool_call_id = Some ''call_1''\<rparr>
       = Inr \<lparr>tm_content = ''5'', tm_tool_call_id = Some ''call_1''\<rparr>
   \<and> agent_scratchpad (final (invoke (world search_and_add) 3 [] ''What is the weather?'' fresh)) = []
   \<and> length (turns (final (invoke (world search_and_add) 3 [] ''What is the weather?'' fresh))) = 1
   \<and> outcome (invoke (world search_and_add) 3 [] ''What is the weather?'' fresh)
       = Inl (ToolError ''network'')"
  by code_simp

section \<open>The scratchpad\<close>

lemma execute_tool_id:
  assumes "execute_tool env c = Inr ob"
  shows "tm_tool_call_id ob = tc_id (hd (tool_calls c))"
  using assms unfolding execute_tool_def
  by (auto split: list.splits option.splits sum.splits)

lemma pad_pairs:
  assumes "completes env t" and "distinct (map tool_call_id (turn_calls env t))"
  shows "\<exists>ps. pad env t = concat (map (\<lambda>(c, ob). [AI c, Tool ob]) ps)
           \<and> map fst ps = turn_calls env t
           \<and> list_all (\<lambda>(c, ob). execute_tool env c = Inr ob \<and> tm_tool_call_id ob = tool_call_id c) ps"
proof -
  let ?calls = "turn_calls env t"
  let ?rs = "map (execute_tool env) ?calls"
  let ?obs = "results ?rs"
  from assms(1) have "\<forall>r\<in>set ?rs. \<exists>v. r = Inr v"
    unfolding completes_iff by auto
  then have rs: "map Inr ?obs = ?rs"
    by (rule results_all_Inr)
  have len: "length ?obs = length ?calls"
    using arg_cong [OF rs, of length] by simp
  have ex: "execute_tool env (?calls ! i) = Inr (?obs ! i)" if "i < length ?calls" for i
  proof -
    have "?rs ! i = map Inr ?obs ! i" by (simp only: rs)
    with that len show ?thesis by simp
  qed
  have "map (\<lambda>c. [AI c, Tool (the (id2tool_obs ?calls ?obs (tool_call_id c)))]) ?calls
          = map (\<lambda>(c, ob). [AI c, Tool ob]) (zip ?calls ?obs)"
  proof (rule nth_equalityI)
    show "length (map (\<lambda>c. [AI c, Tool (the (id2tool_obs ?calls ?obs (tool_call_id c)))]) ?calls)
            = length (map (\<lambda>(c, ob). [AI c, Tool ob]) (zip ?calls ?obs))"
      using len by simp
  next
    fix i assume "i < length (map (\<lambda>c. [AI c, Tool (the (id2tool_obs ?calls ?obs (tool_call_id c)))]) ?calls)"
    then have i: "i < length ?calls" by simp
    from id2tool_obs_distinct [OF len assms(2) i]
    show "map (\<lambda>c. [AI c, Tool (the (id2tool_obs ?calls ?obs (tool_call_id c)))]) ?calls ! i
            = map (\<lambda>(c, ob). [AI c, Tool ob]) (zip ?calls ?obs) ! i"
      using i len by simp
  qed
  then have a: "pad env t = concat (map (\<lambda>(c, ob). [AI c, Tool ob]) (zip ?calls ?obs))"
    unfolding pad_def appended_def by simp
  have b: "map fst (zip ?calls ?obs) = ?calls"
    using len by simp
  have "execute_tool env c = Inr ob \<and> tm_tool_call_id ob = tool_call_id c"
    if "(c, ob) \<in> set (zip ?calls ?obs)" for c ob
  proof -
    from that obtain i where i: "i < length ?calls" "c = ?calls ! i" "ob = ?obs ! i"
      unfolding in_set_zip by auto
    then have e: "execute_tool env c = Inr ob" using ex by simp
    from i have "c \<in> set ?calls" by simp
    then have "tool_call_id c = tc_id (hd (tool_calls c))" by (rule turn_calls_id)
    with e execute_tool_id [OF e] show ?thesis by simp
  qed
  then have c: "list_all (\<lambda>(c, ob). execute_tool env c = Inr ob \<and> tm_tool_call_id ob = tool_call_id c)
                  (zip ?calls ?obs)"
    unfolding list_all_iff by auto
  from a b c show ?thesis by blast
qed

lemma pads_pairs:
  assumes "list_all (completes env) ts"
    and "list_all (\<lambda>t. distinct (map tool_call_id (turn_calls env t))) ts"
  shows "\<exists>ps. concat (map (pad env) ts) = concat (map (\<lambda>(c, ob). [AI c, Tool ob]) ps)
           \<and> map fst ps = concat (map (turn_calls env) ts)
           \<and> list_all (\<lambda>(c, ob). execute_tool env c = Inr ob \<and> tm_tool_call_id ob = tool_call_id c) ps"
  using assms
proof (induction ts)
  case Nil
  show ?case by (intro exI [of _ "[]"]) simp
next
  case (Cons t ts)
  then obtain ps where ps: "concat (map (pad env) ts) = concat (map (\<lambda>(c, ob). [AI c, Tool ob]) ps)"
    "map fst ps = concat (map (turn_calls env) ts)"
    "list_all (\<lambda>(c, ob). execute_tool env c = Inr ob \<and> tm_tool_call_id ob = tool_call_id c) ps"
    by auto
  from Cons.prems obtain qs where qs: "pad env t = concat (map (\<lambda>(c, ob). [AI c, Tool ob]) qs)"
    "map fst qs = turn_calls env t"
    "list_all (\<lambda>(c, ob). execute_tool env c = Inr ob \<and> tm_tool_call_id ob = tool_call_id c) qs"
    using pad_pairs [of env t] by auto
  from ps qs show ?case
    by (intro exI [of _ "qs @ ps"]) simp
qed

lemma completed_prefix:
  assumes "ended env n (initial h) new e s'"
  shows "list_all (completes env) (take (count s') new)"
proof (cases e)
  case (Some ex)
  with assms have "list_all (quiet env) (butlast new)" and "count s' + 1 = length new"
    by (simp_all add: ended_def initial_def)
  moreover from this(2) have "count s' = length new - 1" by simp
  ultimately have "list_all (quiet env) (take (count s') new)"
    by (simp only: butlast_conv_take)
  then show ?thesis
    by (simp add: list_all_iff quiet_def)
next
  case None
  with assms have cnt: "count s' = length new"
    by (simp add: ended_def initial_def)
  from assms None consider
    (budget) "list_all (quiet env) new"
    | (fin) "new \<noteq> []" "list_all (quiet env) (butlast new)" "completes env (last new)"
    by (auto simp: ended_def initial_def)
  then have "list_all (completes env) new"
  proof cases
    case budget
    then show ?thesis by (simp add: list_all_iff quiet_def)
  next
    case fin
    from fin(1) have "set new = insert (last new) (set (butlast new))"
      by (metis append_butlast_last_id list.simps(15) rotate1.simps(2) set_rotate1)
    with fin show ?thesis by (simp add: list_all_iff quiet_def)
  qed
  with cnt show ?thesis by simp
qed

text \<open>
  Claim C5. Provided the ids of the tool calls collected in a turn are distinct, the
  scratchpad of every invocation is a sequence of adjacent pairs, a call message followed at
  once by its own result (the value \<^verbatim>\<open>execute_tool\<close> returned for that call, carrying its id),
  and the calls are those of the completed turns, turn after turn, in the order in which
  each turn collected them. The order in which the tool tasks complete is a component of the
  environment and any order is covered. A run with budget \<open>k\<close> ends in the state that a longer
  run has after \<open>k\<close> iterations, so the statement covers every pass through the loop.
\<close>

theorem scratchpad_pairs:
  assumes "list_all (\<lambda>t. distinct (map tool_call_id (turn_calls env t)))
             (turns (final (invoke env max_iterations hist input h)))"
  shows "\<exists>ps. agent_scratchpad (final (invoke env max_iterations hist input h))
                = concat (map (\<lambda>(c, ob). [AI c, Tool ob]) ps)
           \<and> map fst ps
                = concat (map (turn_calls env)
                    (take (count (final (invoke env max_iterations hist input h)))
                       (turns (final (invoke env max_iterations hist input h)))))
           \<and> list_all (\<lambda>(c, ob). execute_tool env c = Inr ob \<and> tm_tool_call_id ob = tool_call_id c) ps"
proof -
  obtain e s' where s': "final (invoke env max_iterations hist input h) = s'"
    and pad: "agent_scratchpad s' = concat (map (pad env) (take (count s') (turns s')))"
    and en: "ended env max_iterations (initial h) (turns s') e s'"
    by (rule invoke_run)
  from en have c: "list_all (completes env) (take (count s') (turns s'))"
    by (rule completed_prefix)
  from assms have "list_all (\<lambda>t. distinct (map tool_call_id (turn_calls env t))) (turns s')"
    unfolding s' .
  then have d: "list_all (\<lambda>t. distinct (map tool_call_id (turn_calls env t))) (take (count s') (turns s'))"
    unfolding list_all_iff using in_set_takeD by fast
  from pads_pairs [OF c d] show ?thesis
    unfolding s' pad .
qed

theorem scratchpad_pairs_witness:
  "list_all (\<lambda>t. distinct (map tool_call_id (turn_calls (world add_then_answer) t)))
     (turns (final (invoke (world add_then_answer) 3 [] ''What is 2+3?'' fresh)))
   \<and> (\<exists>ps. agent_scratchpad (final (invoke (world add_then_answer) 3 [] ''What is 2+3?'' fresh))
                = concat (map (\<lambda>(c, ob). [AI c, Tool ob]) ps)
           \<and> map fst ps
                = concat (map (turn_calls (world add_then_answer))
                    (take (count (final (invoke (world add_then_answer) 3 [] ''What is 2+3?'' fresh)))
                       (turns (final (invoke (world add_then_answer) 3 [] ''What is 2+3?'' fresh)))))
           \<and> list_all (\<lambda>(c, ob). execute_tool (world add_then_answer) c = Inr ob
                                  \<and> tm_tool_call_id ob = tool_call_id c) ps)"
proof -
  have h: "list_all (\<lambda>t. distinct (map tool_call_id (turn_calls (world add_then_answer) t)))
     (turns (final (invoke (world add_then_answer) 3 [] ''What is 2+3?'' fresh)))"
    by code_simp
  from scratchpad_pairs [OF h] h show ?thesis by blast
qed

section \<open>Only the first tool call of a message is read\<close>

text \<open>
  Claim C10. \<^verbatim>\<open>execute_tool\<close> runs only the first tool call of a message and gives the result
  that call's id; the scan for the terminating tool compares only the first tool call's name.
  So cutting every message down to its first tool call changes neither the dispatch of a
  turn nor the scan: further tool calls of a message are never run and cannot end the loop.
\<close>

theorem first_tool_call_only:
  "execute_tool env c = execute_tool env (first_only c)
   \<and> (case execute_tool env c of
         Inl e \<Rightarrow> True
       | Inr ob \<Rightarrow> tm_tool_call_id ob = tc_id (hd (tool_calls c)))
   \<and> map (execute_tool env) cs = map (execute_tool env) (map first_only cs)
   \<and> find_final_answer cs = find_final_answer (map first_only cs)"
proof -
  have a: "execute_tool env c = execute_tool env (first_only c)" for c
    unfolding execute_tool_def first_only_def by (cases "tool_calls c") simp_all
  have b: "(case execute_tool env c of
         Inl e \<Rightarrow> True
       | Inr ob \<Rightarrow> tm_tool_call_id ob = tc_id (hd (tool_calls c)))"
    using execute_tool_id [of env c] by (cases "execute_tool env c") simp_all
  have c: "find_final_answer cs = find_final_answer (map first_only cs)"
    by (induction cs) (auto simp: first_only_def split: list.splits)
  from a b c show ?thesis by simp
qed

text \<open>
  A message whose second tool call is \<open>final_answer\<close>: the addition is run, the scan finds
  nothing.
\<close>

lemma second_tool_call_ignored:
  "execute_tool (world always_add)
     \<lparr>content = [], tool_calls = [add_call, answer_call], tool_call_id = Some ''call_1''\<rparr>
     = Inr \<lparr>tm_content = ''5'', tm_tool_call_id = Some ''call_1''\<rparr>
   \<and> find_final_answer
        [\<lparr>content = [], tool_calls = [add_call, answer_call], tool_call_id = Some ''call_1''\<rparr>]
       = Inr None"
  by code_simp

section \<open>The collector's rule for deltas\<close>

lemma collect_snoc:
  "collect parse (tokens @ [token]) = stream_step parse (collect parse tokens) token"
  by (simp add: collect_def)

text \<open>
  What the collector does with one more delta, for every sequence of deltas before it: a
  first fragment with a non-empty id or name (as \<open>.get("id")\<close> and \<open>.get("name")\<close> find them)
  starts a new output; one with neither is added to the last output; with no output yet it
  is dropped.
\<close>

lemma collector_rule:
  "collect parse (tokens @ [token]) =
     (case chunk_or_call token of
        None \<Rightarrow> collect parse tokens
      | Some f \<Rightarrow>
          if truthy_str (has_id f) \<or> truthy_str (has_name f) then collect parse tokens @ [token]
          else if collect parse tokens = [] then []
          else butlast (collect parse tokens) @ [chunk_add parse (last (collect parse tokens)) token])"
  unfolding collect_snoc stream_step_def by (simp split: option.splits)

lemma merge_arg_twice:
  "merge_by_index tcc_index merge_chunk
     (merge_by_index tcc_index merge_chunk l
        \<lparr>tcc_name = None, tcc_args = Some a, tcc_id = None, tcc_index = k\<rparr>)
     \<lparr>tcc_name = None, tcc_args = Some b, tcc_id = None, tcc_index = k\<rparr>
   = merge_by_index tcc_index merge_chunk l
       \<lparr>tcc_name = None, tcc_args = Some (a @ b), tcc_id = None, tcc_index = k\<rparr>"
proof (induction l)
  case Nil
  show ?case by (simp add: merge_chunk_def)
next
  case (Cons x xs)
  have m: "merge_opt (merge_opt u (Some a)) (Some b) = merge_opt u (Some (a @ b))"
    and n: "merge_opt (merge_opt u None) None = merge_opt u None" for u
    by (cases u; simp)+
  show ?case
  proof (cases "tcc_index x = k")
    case True
    then show ?thesis by (simp add: merge_chunk_def m n)
  next
    case False
    with Cons show ?thesis by simp
  qed
qed

lemma chunk_add_arg_twice:
  "chunk_add parse (chunk_add parse x (arg_delta k a)) (arg_delta k b)
     = chunk_add parse x (arg_delta k (a @ b))"
  unfolding chunk_add_def arg_delta_def by (simp add: merge_arg_twice)

lemma chunk_add_args_fold:
  "foldl (chunk_add parse) (chunk_add parse x (arg_delta k a)) (map (arg_delta k) rest)
     = chunk_add parse x (arg_delta k (a @ concat rest))"
proof (induction rest arbitrary: a)
  case Nil
  show ?case by simp
next
  case (Cons b rest)
  have "foldl (chunk_add parse) (chunk_add parse x (arg_delta k a)) (map (arg_delta k) (b # rest))
          = foldl (chunk_add parse) (chunk_add parse x (arg_delta k (a @ b))) (map (arg_delta k) rest)"
    by (simp add: chunk_add_arg_twice)
  also have "\<dots> = chunk_add parse x (arg_delta k ((a @ b) @ concat rest))"
    by (rule Cons.IH)
  finally show ?case by simp
qed

lemma collect_continuations:
  assumes "collect parse tokens = outs @ [x]"
  shows "collect parse (tokens @ map (arg_delta k) frs)
           = outs @ [foldl (chunk_add parse) x (map (arg_delta k) frs)]"
proof (induction frs rule: rev_induct)
  case Nil
  with assms show ?case by simp
next
  case (snoc a frs)
  have c: "chunk_or_call (arg_delta k a)
             = Some (FChunk \<lparr>tcc_name = None, tcc_args = Some a, tcc_id = None, tcc_index = k\<rparr>)"
    by (simp add: chunk_or_call_def arg_delta_def)
  have "collect parse (tokens @ map (arg_delta k) (frs @ [a]))
          = collect parse ((tokens @ map (arg_delta k) frs) @ [arg_delta k a])"
    by simp
  also have "\<dots> = outs @ [chunk_add parse (foldl (chunk_add parse) x (map (arg_delta k) frs)) (arg_delta k a)]"
    unfolding collector_rule c snoc.IH by simp
  finally show ?case by simp
qed




text \<open>
  Claim C8. For every way of cutting a tool call's argument text into one or more ordered
  pieces, adding the pieces one after the other to a pending output (\<open>outputs[-1] += token\<close>)
  gives the same chunk as adding the whole text at once; the collector, fed the starting
  delta followed by the pieces, ends with exactly one output, the one it ends with when fed
  the single delta that carries id, name and the whole text; and when the whole text decodes,
  \<^verbatim>\<open>stream\<close> returns in both cases the one complete tool call with that id, that name and the
  decoded arguments.
\<close>

theorem fragments_concatenate:
  assumes "frs \<noteq> []" and "truthy_str (Some i) \<or> truthy_str (Some n)"
  shows "foldl (chunk_add (parse_json env)) x (map (arg_delta k) frs)
           = chunk_add (parse_json env) x (arg_delta k (concat frs))
         \<and> collect (parse_json env) (start_delta k i n # map (arg_delta k) frs)
             = [whole_delta (parse_json env) k i n (concat frs)]
         \<and> collect (parse_json env) [whole_delta (parse_json env) k i n (concat frs)]
             = [whole_delta (parse_json env) k i n (concat frs)]
         \<and> (concat frs \<noteq> [] \<and> parse_json env (concat frs) = Some d \<longrightarrow>
              turn_calls env (start_delta k i n # map (arg_delta k) frs)
                = [\<lparr>content = [], tool_calls = [\<lparr>tc_name = n, tc_args = d, tc_id = Some i\<rparr>],
                    tool_call_id = Some i\<rparr>]
              \<and> turn_calls env [whole_delta (parse_json env) k i n (concat frs)]
                = [\<lparr>content = [], tool_calls = [\<lparr>tc_name = n, tc_args = d, tc_id = Some i\<rparr>],
                    tool_call_id = Some i\<rparr>])"
proof -
  let ?parse = "parse_json env"
  from assms(1) obtain a rest where frs: "frs = a # rest" by (cases frs) auto
  have fold: "foldl (chunk_add ?parse) y (map (arg_delta k) frs)
           = chunk_add ?parse y (arg_delta k (concat frs))" for y
    unfolding frs using chunk_add_args_fold [of ?parse y k a rest] by simp
  have s: "collect ?parse ([] @ [start_delta k i n]) = [] @ [start_delta k i n]"
    unfolding collector_rule using assms(2)
    by (auto simp: chunk_or_call_def start_delta_def collect_def)
  have "collect ?parse (([] @ [start_delta k i n]) @ map (arg_delta k) frs)
          = [] @ [foldl (chunk_add ?parse) (start_delta k i n) (map (arg_delta k) frs)]"
    by (rule collect_continuations [OF s])
  then have l: "collect ?parse (start_delta k i n # map (arg_delta k) frs)
          = [chunk_add ?parse (start_delta k i n) (arg_delta k (concat frs))]"
    unfolding fold by simp
  have w: "chunk_add ?parse (start_delta k i n) (arg_delta k (concat frs))
             = whole_delta ?parse k i n (concat frs)"
    by (simp add: chunk_add_def start_delta_def arg_delta_def whole_delta_def merge_chunk_def)
  have "collect ?parse ([] @ [whole_delta ?parse k i n (concat frs)])
          = [] @ [whole_delta ?parse k i n (concat frs)]"
    unfolding collector_rule using assms(2)
    by (auto simp: chunk_or_call_def whole_delta_def collect_def)
  then have r: "collect ?parse [whole_delta ?parse k i n (concat frs)]
                  = [whole_delta ?parse k i n (concat frs)]"
    by simp
  have m: "to_message (whole_delta ?parse k i n (concat frs))
             = Some \<lparr>content = [], tool_calls = [\<lparr>tc_name = n, tc_args = d, tc_id = Some i\<rparr>],
                 tool_call_id = Some i\<rparr>"
    if "concat frs \<noteq> []" "?parse (concat frs) = Some d"
    using that by (simp add: to_message_def whole_delta_def init_tool_call_def)
  from fold l w r m show ?thesis
    by (simp add: turn_calls_def)
qed

theorem fragments_concatenate_witness:
  "[add_text_1, add_text_2] \<noteq> []
   \<and> (truthy_str (Some ''call_1'') \<or> truthy_str (Some ''add''))
   \<and> concat [add_text_1, add_text_2] \<noteq> []
   \<and> parse_json (world always_add) (concat [add_text_1, add_text_2])
       = Some [(''x'', PInt 2), (''y'', PInt 3)]
   \<and> collect (parse_json (world always_add))
         (start_delta 0 ''call_1'' ''add'' # map (arg_delta 0) [add_text_1, add_text_2])
       = [whole_delta (parse_json (world always_add)) 0 ''call_1'' ''add''
            (concat [add_text_1, add_text_2])]
   \<and> turn_calls (world always_add)
         (start_delta 0 ''call_1'' ''add'' # map (arg_delta 0) [add_text_1, add_text_2])
       = [\<lparr>content = [], tool_calls = [add_call], tool_call_id = Some ''call_1''\<rparr>]
   \<and> turn_calls (world always_add)
         [whole_delta (parse_json (world always_add)) 0 ''call_1'' ''add''
            (concat [add_text_1, add_text_2])]
       = [\<lparr>content = [], tool_calls = [add_call], tool_call_id = Some ''call_1''\<rparr>]"
proof -
  have h1: "[add_text_1, add_text_2] \<noteq> []" by simp
  have h2: "truthy_str (Some ''call_1'') \<or> truthy_str (Some ''add'')" by simp
  have h3: "concat [add_text_1, add_text_2] \<noteq> []" by (simp add: add_text_1_def)
  have h4: "parse_json (world always_add) (concat [add_text_1, add_text_2])
       = Some [(''x'', PInt 2), (''y'', PInt 3)]"
    by (simp add: world_def decode_def)
  from fragments_concatenate [OF h1 h2, of "world always_add" _ 0 "[(''x'', PInt 2), (''y'', PInt 3)]"]
    h1 h2 h3 h4
  show ?thesis by (simp add: add_call_def)
qed

section \<open>Sentinels\<close>

lemma tokens_told:
  "foldl on_llm_new_token h (map Some t)
     = \<lparr>queue = queue h @ map QChunk t, final_answer_seen = (final_answer_seen h \<or> saw_final t)\<rparr>"
proof (induction t arbitrary: h)
  case Nil
  show ?case by (simp add: saw_final_def)
next
  case (Cons tok t)
  have step: "on_llm_new_token h (Some tok)
    = \<lparr>queue = queue h @ [QChunk tok],
       final_answer_seen = (final_answer_seen h \<or> token_tool_name tok = Some ''final_answer'')\<rparr>"
    by (simp add: on_llm_new_token_def)
  have "foldl on_llm_new_token h (map Some (tok # t))
          = foldl on_llm_new_token (on_llm_new_token h (Some tok)) (map Some t)"
    by simp
  also have "\<dots> = \<lparr>queue = queue (on_llm_new_token h (Some tok)) @ map QChunk t,
       final_answer_seen = (final_answer_seen (on_llm_new_token h (Some tok)) \<or> saw_final t)\<rparr>"
    by (rule Cons.IH)
  also have "\<dots> = \<lparr>queue = queue h @ map QChunk (tok # t),
       final_answer_seen = (final_answer_seen h \<or> saw_final (tok # t))\<rparr>"
    unfolding step by (simp add: saw_final_def)
  finally show ?case .
qed

lemma publish_turn_eq:
  "publish_turn h t
     = \<lparr>queue = queue h @ map QChunk t
                @ [QStr (if final_answer_seen h \<or> saw_final t then DONE else STEP_END)],
        final_answer_seen = (final_answer_seen h \<or> saw_final t)\<rparr>"
  unfolding publish_turn_def tokens_told on_llm_end_def by simp

lemma publish_turns:
  "queue (foldl publish_turn h ts) = queue h @ published (final_answer_seen h) ts"
proof (induction ts arbitrary: h)
  case Nil
  show ?case by simp
next
  case (Cons t ts)
  show ?case
    by (simp add: Cons.IH) (simp add: publish_turn_eq)
qed

lemma sentinels_differ: "DONE \<noteq> STEP_END"
  by (simp add: DONE_def STEP_END_def)

lemma count_done_chunks: "count_list (map QChunk t) (QStr s) = 0"
  by (induction t) simp_all

lemma count_list_append: "count_list (xs @ ys) x = count_list xs x + count_list ys x"
  by (induction xs) simp_all

lemma count_done_seen: "count_list (published True ts) (QStr DONE) = length ts"
  by (induction ts) (simp_all add: count_list_append count_done_chunks)

lemma count_done:
  "count_list (published False ts) (QStr DONE) = length (dropWhile (\<lambda>t. \<not> saw_final t) ts)"
proof (induction ts)
  case Nil
  show ?case by simp
next
  case (Cons t ts)
  show ?case
  proof (cases "saw_final t")
    case True
    then show ?thesis
      by (simp add: count_list_append count_done_chunks count_done_seen)
  next
    case False
    with Cons sentinels_differ show ?thesis
      by (simp add: count_list_append count_done_chunks)
  qed
qed

lemma aiter_yield: "fst (aiter q) = filter qtruthy (takeWhile (\<lambda>x. x \<noteq> QStr DONE) q)"
  by (induction q) simp_all

lemma aiter_returns: "snd (aiter q) = (QStr DONE \<in> set q)"
  by (induction q) auto

lemma aiter_no_done: "QStr DONE \<notin> set (fst (aiter q))"
  unfolding aiter_yield by (auto dest: set_takeWhileD)

lemma count_step_seen: "count_list (published True ts) (QStr STEP_END) = 0"
  using sentinels_differ by (induction ts) (simp_all add: count_list_append count_done_chunks)

lemma count_step_end:
  "count_list (published False ts) (QStr STEP_END) = length (takeWhile (\<lambda>t. \<not> saw_final t) ts)"
proof (induction ts)
  case Nil
  show ?case by simp
next
  case (Cons t ts)
  show ?case
  proof (cases "saw_final t")
    case True
    with sentinels_differ show ?thesis
      by (simp add: count_list_append count_done_chunks count_step_seen)
  next
    case False
    with Cons show ?thesis
      by (simp add: count_list_append count_done_chunks)
  qed
qed

lemma published_last:
  "ts \<noteq> [] \<Longrightarrow>
   last (published seen ts) = QStr (if seen \<or> list_ex saw_final ts then DONE else STEP_END)"
proof (induction ts arbitrary: seen)
  case Nil
  then show ?case by simp
next
  case (Cons t ts)
  show ?case
  proof (cases "ts = []")
    case True
    then show ?thesis by simp
  next
    case False
    then have "published (seen \<or> saw_final t) ts \<noteq> []"
      by (cases ts) simp_all
    with Cons.IH [OF False, of "seen \<or> saw_final t"] show ?thesis
      by (auto simp: last_append)
  qed
qed

lemma none_saw: "\<not> list_ex saw_final ts \<Longrightarrow> takeWhile (\<lambda>t. \<not> saw_final t) ts = ts
    \<and> dropWhile (\<lambda>t. \<not> saw_final t) ts = []"
  by (induction ts) simp_all

lemma last_saw:
  assumes "ts \<noteq> []" and "\<not> list_ex saw_final (butlast ts)" and "saw_final (last ts)"
  shows "takeWhile (\<lambda>t. \<not> saw_final t) ts = butlast ts"
    and "dropWhile (\<lambda>t. \<not> saw_final t) ts = [last ts]"
proof -
  from assms(1) have ts: "ts = butlast ts @ [last ts]" by simp
  from assms(2) have b: "\<forall>t\<in>set (butlast ts). \<not> saw_final t"
    by (simp add: list_ex_iff)
  have "takeWhile (\<lambda>t. \<not> saw_final t) (butlast ts @ [last ts]) = butlast ts"
    using b assms(3) by (simp add: takeWhile_append2)
  with ts show "takeWhile (\<lambda>t. \<not> saw_final t) ts = butlast ts" by simp
  have "dropWhile (\<lambda>t. \<not> saw_final t) (butlast ts @ [last ts]) = [last ts]"
    using b assms(3) by (simp add: dropWhile_append2)
  with ts show "dropWhile (\<lambda>t. \<not> saw_final t) ts = [last ts]" by simp
qed

text \<open>
  Claim C7, as amended. At a model end-of-turn a handler that has not yet seen the name
  publishes \<open><<STEP_END>>\<close> if no delta of the turn had \<open>final_answer\<close> as the name of its first
  tool call, and \<open><<DONE>>\<close> if one did. So an invocation in which no delta carries the name
  publishes no \<open><<DONE>>\<close> and one \<open><<STEP_END>>\<close> for every turn, and an invocation whose last
  turn is the first to carry the name publishes exactly one \<open><<DONE>>\<close>, as the last item of
  the queue, after one \<open><<STEP_END>>\<close> for every earlier turn. \<^verbatim>\<open>__aiter__\<close> yields the true
  items before the first \<open><<DONE>>\<close>, returns when it receives \<open><<DONE>>\<close>, and never yields it.
\<close>

theorem done_sentinel_rule:
  "(\<not> final_answer_seen h \<longrightarrow>
      queue (publish_turn h t)
        = queue h @ map QChunk t @ [QStr (if saw_final t then DONE else STEP_END)])
   \<and> (\<not> list_ex saw_final (turns (final (invoke env max_iterations hist input fresh))) \<longrightarrow>
        count_list (queue (streamer (final (invoke env max_iterations hist input fresh)))) (QStr DONE) = 0
        \<and> count_list (queue (streamer (final (invoke env max_iterations hist input fresh)))) (QStr STEP_END)
            = length (turns (final (invoke env max_iterations hist input fresh))))
   \<and> (turns (final (invoke env max_iterations hist input fresh)) \<noteq> []
        \<and> \<not> list_ex saw_final (butlast (turns (final (invoke env max_iterations hist input fresh))))
        \<and> saw_final (last (turns (final (invoke env max_iterations hist input fresh)))) \<longrightarrow>
        count_list (queue (streamer (final (invoke env max_iterations hist input fresh)))) (QStr DONE) = 1
        \<and> last (queue (streamer (final (invoke env max_iterations hist input fresh)))) = QStr DONE
        \<and> count_list (queue (streamer (final (invoke env max_iterations hist input fresh)))) (QStr STEP_END)
            = length (turns (final (invoke env max_iterations hist input fresh))) - 1)
   \<and> fst (aiter q) = filter qtruthy (takeWhile (\<lambda>x. x \<noteq> QStr DONE) q)
   \<and> QStr DONE \<notin> set (fst (aiter q))
   \<and> (QStr DONE \<in> set q \<longrightarrow> snd (aiter q))"
proof -
  obtain e s' where s': "final (invoke env max_iterations hist input fresh) = s'"
    and st: "streamer s' = foldl publish_turn fresh (turns s')"
    by (rule invoke_run)
  have q: "queue (streamer s') = published False (turns s')"
    unfolding st publish_turns by (simp add: fresh_def)
  have a: "\<not> final_answer_seen h \<longrightarrow>
      queue (publish_turn h t)
        = queue h @ map QChunk t @ [QStr (if saw_final t then DONE else STEP_END)]"
    by (simp add: publish_turn_eq)
  have b: "count_list (queue (streamer s')) (QStr DONE) = 0
        \<and> count_list (queue (streamer s')) (QStr STEP_END) = length (turns s')"
    if "\<not> list_ex saw_final (turns s')"
  proof -
    from none_saw [OF that] have tw: "takeWhile (\<lambda>t. \<not> saw_final t) (turns s') = turns s'"
      and dw: "dropWhile (\<lambda>t. \<not> saw_final t) (turns s') = []"
      by blast+
    show ?thesis
      unfolding q count_done count_step_end tw dw by simp
  qed
  have c: "count_list (queue (streamer s')) (QStr DONE) = 1
        \<and> last (queue (streamer s')) = QStr DONE
        \<and> count_list (queue (streamer s')) (QStr STEP_END) = length (turns s') - 1"
    if "turns s' \<noteq> []" "\<not> list_ex saw_final (butlast (turns s'))" "saw_final (last (turns s'))"
  proof -
    from that(1,3) have "list_ex saw_final (turns s')"
      unfolding list_ex_iff using last_in_set by blast
    with that(1) have "last (published False (turns s')) = QStr DONE"
      by (simp add: published_last)
    then show ?thesis
      unfolding q count_done count_step_end last_saw [OF that] by simp
  qed
  from a b c show ?thesis
    unfolding s' by (simp add: aiter_yield [symmetric] aiter_no_done aiter_returns)
qed

theorem done_sentinel_rule_witness:
  "\<not> final_answer_seen fresh
   \<and> queue (publish_turn fresh [call_token add_call]) = [QChunk (call_token add_call), QStr STEP_END]
   \<and> \<not> list_ex saw_final (turns (final (invoke (world always_add) 3 [] ''What is 2+3?'' fresh)))
   \<and> count_list (queue (streamer (final (invoke (world always_add) 3 [] ''What is 2+3?'' fresh))))
        (QStr DONE) = 0
   \<and> count_list (queue (streamer (final (invoke (world always_add) 3 [] ''What is 2+3?'' fresh))))
        (QStr STEP_END) = 3
   \<and> turns (final (invoke (world add_then_answer) 3 [] ''What is 2+3?'' fresh)) \<noteq> []
   \<and> \<not> list_ex saw_final (butlast (turns (final (invoke (world add_then_answer) 3 [] ''What is 2+3?'' fresh))))
   \<and> saw_final (last (turns (final (invoke (world add_then_answer) 3 [] ''What is 2+3?'' fresh))))
   \<and> count_list (queue (streamer (final (invoke (world add_then_answer) 3 [] ''What is 2+3?'' fresh))))
        (QStr DONE) = 1
   \<and> last (queue (streamer (final (invoke (world add_then_answer) 3 [] ''What is 2+3?'' fresh)))) = QStr DONE
   \<and> count_list (queue (streamer (final (invoke (world add_then_answer) 3 [] ''What is 2+3?'' fresh))))
        (QStr STEP_END) = 1
   \<and> QStr DONE \<in> set (queue (streamer (final (invoke (world add_then_answer) 3 [] ''What is 2+3?'' fresh))))
   \<and> snd (aiter (queue (streamer (final (invoke (world add_then_answer) 3 [] ''What is 2+3?'' fresh)))))"
proof -
  have h0: "\<not> final_answer_seen fresh" by (simp add: fresh_def)
  have v0: "queue (publish_turn fresh [call_token add_call]) = [QChunk (call_token add_call), QStr STEP_END]"
    by code_simp
  have h1: "\<not> list_ex saw_final (turns (final (invoke (world always_add) 3 [] ''What is 2+3?'' fresh)))"
    by code_simp
  have l1: "length (turns (final (invoke (world always_add) 3 [] ''What is 2+3?'' fresh))) = 3"
    by code_simp
  have h2: "turns (final (invoke (world add_then_answer) 3 [] ''What is 2+3?'' fresh)) \<noteq> []"
    by code_simp
  have h3: "\<not> list_ex saw_final (butlast (turns (final (invoke (world add_then_answer) 3 [] ''What is 2+3?'' fresh))))"
    by code_simp
  have h4: "saw_final (last (turns (final (invoke (world add_then_answer) 3 [] ''What is 2+3?'' fresh))))"
    by code_simp
  have l2: "length (turns (final (invoke (world add_then_answer) 3 [] ''What is 2+3?'' fresh))) = 2"
    by code_simp
  have h5: "QStr DONE \<in> set (queue (streamer (final (invoke (world add_then_answer) 3 [] ''What is 2+3?'' fresh))))"
    by code_simp
  from done_sentinel_rule [of fresh "[call_token add_call]" "world always_add" 3 "[]" "''What is 2+3?''"
      "queue (streamer (final (invoke (world add_then_answer) 3 [] ''What is 2+3?'' fresh)))"]
    done_sentinel_rule [of fresh "[call_token add_call]" "world add_then_answer" 3 "[]" "''What is 2+3?''"
      "queue (streamer (final (invoke (world add_then_answer) 3 [] ''What is 2+3?'' fresh)))"]
    h0 v0 h1 l1 h2 h3 h4 l2 h5
  show ?thesis by simp
qed

text \<open>
  Claim C7 as stated fails: the model never selects \<open>final_answer\<close>, the loop runs its three
  turns and ends, and no \<open><<DONE>>\<close> has been published.
\<close>

theorem no_done_when_budget_runs_out:
  "count_list (queue (streamer (final (invoke (world always_add) 3 [] ''What is 2+3?'' fresh))))
     (QStr DONE) = 0
   \<and> length (turns (final (invoke (world always_add) 3 [] ''What is 2+3?'' fresh))) = 3
   \<and> outcome (invoke (world always_add) 3 [] ''What is 2+3?'' fresh) = Inr (ReturnDict no_answer)"
  by code_simp

section \<open>Visible output\<close>






text \<open>
  A run with an addition streamed in two pieces and then the final answer: every piece of
  argument text is passed on as it came.
\<close>

lemma streamed_add_output:
  "stream_generator (world streamed_add) False False
     (queue (streamer (final (invoke (world streamed_add) 3 [] ''What is 2+3?'' fresh))))
     = [step_header ''add'', add_text_1, add_text_2, ''</step>'',
        step_header ''final_answer'', json_dumps (world streamed_add) (tc_args answer_call)]
   \<and> outcome (invoke (world streamed_add) 3 [] ''What is 2+3?'' fresh) = Inr (ReturnCall answer_call)"
  by code_simp


end
